theory Spec2Isabelle
  imports Complex_Main "HOL-Library.Multiset" "HOL-Library.Product_Lexorder" "HOL-Library.Word"
begin

section \<open>Data model of the hierarchical clustering index\<close>

text \<open>
  Ways in which a call does not return normally: a \<open>FLANNException\<close> with its message,
  the \<open>std::length_error\<close> of a \<open>resize\<close> to a negative count, behaviour the C++
  standard leaves undefined (indexing a vector out of range, reading through a null
  pointer), and the recursion of \<open>computeClustering\<close> not ending within the fuel given.
\<close>

datatype error = FLANNException string | LengthError | UndefinedBehaviour | OutOfFuel

text \<open>
  A pointer \<open>ElementType*\<close> into the (read-only) dataset is modelled by the vector it
  points to, of an abstract type \<open>'p\<close>; the null pointer of a value-initialised node is
  \<open>None\<close>. The distance functor is a parameter with results in an ordered type \<open>'d\<close>.
\<close>

datatype 'p PointInfo = PointInfo (index: nat) (point: 'p)

datatype 'p Node = Node (pivot: "'p option") (childs: "'p Node list") (points: "'p PointInfo list")

datatype ('p, 'd) BranchSt = BranchSt (node: "'p Node") (mindist: 'd)

text \<open>
  The members of the class (with those of its base \<open>NNIndex\<close> that the code reads:
  the dataset rows, whose number is the member \<open>size\<close>, and the bitset of removed
  points). A member \<^verbatim>\<open>name_\<close> of the source is the field \<open>name'\<close> here, since a name
  cannot end in an underscore. The center chooser is a parameter: called with the number
  of centers wanted and the candidate indices, it returns the centers chosen (their
  number is \<open>centers_length\<close>); its random draws are threaded through \<open>random'\<close>.
\<close>

record ('p, 'd, 'g) HierarchicalClusteringIndex =
  points' :: "'p list"
  removed_points' :: "nat \<Rightarrow> bool"
  distance' :: "'p \<Rightarrow> 'p \<Rightarrow> 'd"
  chooseCenters' :: "int \<Rightarrow> nat list \<Rightarrow> 'g \<Rightarrow> nat list \<times> 'g"
  random' :: 'g
  branching' :: int
  trees' :: int
  centers_init' :: int
  leaf_size' :: int
  memoryCounter' :: int
  tree_roots' :: "'p Node list"
  size_at_build' :: nat

text \<open>
  The interface of \<open>ResultSet\<close> that the search uses, over an abstract accumulator
  state \<open>'r\<close>.
\<close>

record ('d, 'r) ResultSet =
  addPoint :: "'d \<Rightarrow> nat \<Rightarrow> 'r \<Rightarrow> 'r"
  full :: "'r \<Rightarrow> bool"

text \<open>
  Modelled from the spec: the class \<open>Heap\<close> (flann/util/heap.h) is not part of the
  sources. The spec describes a min-heap of branches ordered by their lower-bound
  distance, ties going to the branch inserted first; its elements are kept as the list
  \<open>heap'\<close> in insertion order, whose length is the member \<open>count\<close>. The argument of the
  constructor (line 273) is the member \<open>length'\<close>, the capacity: FLANN's heap ignores an
  insertion made when it holds that many elements.
\<close>

record ('p, 'd) Heap =
  heap' :: "('p, 'd) BranchSt list"
  length' :: int

text \<open>The objects local to one query: the accumulator, \<open>checks\<close>, the heap and the bitset.\<close>

record ('p, 'd, 'r) search_state =
  result :: 'r
  checks :: int
  heap :: "('p, 'd) Heap"
  checked :: "nat set"

definition seq :: "error + 'a \<Rightarrow> ('a \<Rightarrow> error + 'b) \<Rightarrow> error + 'b" where
  "seq m f = (case m of Inl e \<Rightarrow> Inl e | Inr x \<Rightarrow> f x)"

section \<open>The heap of deferred branches\<close>

text \<open>
  The operations of the heap that the search uses: the constructor, \<open>insert\<close>, which
  does nothing on a full heap, and \<open>popMin\<close>, which takes out the first inserted of the
  branches of least distance.
\<close>

definition new_Heap :: "int \<Rightarrow> ('p, 'd) Heap" where
  "new_Heap sz = \<lparr>heap' = [], length' = sz\<rparr>"

definition heap_insert :: "('p, 'd) BranchSt \<Rightarrow> ('p, 'd) Heap \<Rightarrow> ('p, 'd) Heap" where
  "heap_insert b h = (if int (length (heap' h)) = length' h then h else h\<lparr>heap' := heap' h @ [b]\<rparr>)"

fun take_least :: "('p, 'd::linorder) BranchSt list \<Rightarrow> (('p, 'd) BranchSt \<times> ('p, 'd) BranchSt list) option" where
  "take_least [] = None"
| "take_least (b # h) =
     (case take_least h of
        None \<Rightarrow> Some (b, [])
      | Some (m, h') \<Rightarrow> if mindist m < mindist b then Some (m, b # h') else Some (b, h))"

definition popMin :: "('p, 'd::linorder) Heap \<Rightarrow> (('p, 'd) BranchSt \<times> ('p, 'd) Heap) option" where
  "popMin h = (case take_least (heap' h) of
                 None \<Rightarrow> None
               | Some (b, rest) \<Rightarrow> Some (b, h\<lparr>heap' := rest\<rparr>))"

section \<open>Search: findNN and findNeighbors\<close>

text \<open>The loop over the points of a leaf (lines 476-484 of the source).\<close>

fun score_points ::
  "('p, 'd, 'g) HierarchicalClusteringIndex \<Rightarrow> ('d, 'r) ResultSet \<Rightarrow> 'p \<Rightarrow>
   'p PointInfo list \<Rightarrow> ('p, 'd, 'r) search_state \<Rightarrow> ('p, 'd, 'r) search_state" where
  "score_points ix rs vec [] st = st"
| "score_points ix rs vec (pointInfo # rest) st =
     (if index pointInfo \<in> checked st \<or> removed_points' ix (index pointInfo)
      then score_points ix rs vec rest st
      else score_points ix rs vec rest
             (st\<lparr>result := addPoint rs (distance' ix (point pointInfo) vec) (index pointInfo) (result st),
                 checked := insert (index pointInfo) (checked st),
                 checks := checks st + 1\<rparr>))"

text \<open>The distances from the query to the pivots of the children; a null pivot cannot be read.\<close>

fun domain_distances :: "('p \<Rightarrow> 'p \<Rightarrow> 'd) \<Rightarrow> 'p \<Rightarrow> 'p Node list \<Rightarrow> error + 'd list" where
  "domain_distances distance vec [] = Inr []"
| "domain_distances distance vec (c # cs) =
     (case pivot c of
        None \<Rightarrow> Inl UndefinedBehaviour
      | Some pv \<Rightarrow>
          (case domain_distances distance vec cs of
             Inl e \<Rightarrow> Inl e
           | Inr ds \<Rightarrow> Inr (distance vec pv # ds)))"

text \<open>The loop that keeps the first child of least distance (lines 488-495).\<close>

definition best_index :: "'d::linorder list \<Rightarrow> nat \<Rightarrow> nat" where
  "best_index ds B = fold (\<lambda>i best. if ds ! i < ds ! best then i else best) [1..<B] 0"

text \<open>The loop that defers every other child to the heap (lines 496-500).\<close>

definition insert_others ::
  "'p Node list \<Rightarrow> 'd list \<Rightarrow> nat \<Rightarrow> nat \<Rightarrow> ('p, 'd) Heap \<Rightarrow> ('p, 'd) Heap" where
  "insert_others cs ds B best h =
     fold (\<lambda>i h'. if i \<noteq> best then heap_insert (BranchSt (cs ! i) (ds ! i)) h' else h') [0..<B] h"

lemma fold_best_less:
  "b < B \<Longrightarrow> \<forall>i \<in> set js. i < B \<Longrightarrow>
   fold (\<lambda>i best. if (ds :: 'd::linorder list) ! i < ds ! best then i else best) js b < B"
  by (induction js arbitrary: b) simp_all

lemma best_index_less: "0 < B \<Longrightarrow> best_index ds B < B"
  unfolding best_index_def by (rule fold_best_less) simp_all

lemma size_nth_childs: "i < length cs \<Longrightarrow> size (cs ! i) < Suc (size_list size cs)"
  using size_list_estimation'[of "cs ! i" cs "size (cs ! i)" size]
  by (simp add: less_Suc_eq_le)

text \<open>
  One descent (lines 467-504). An inner node reads its first \<open>branching'\<close> children: with
  fewer children, or with \<open>branching' < 1\<close> (the array \<open>domain_distances\<close> then has no
  element 0), the behaviour is undefined.
\<close>

function findNN ::
  "('p, 'd::linorder, 'g) HierarchicalClusteringIndex \<Rightarrow> ('d, 'r) ResultSet \<Rightarrow> 'p \<Rightarrow> int \<Rightarrow>
   'p Node \<Rightarrow> ('p, 'd, 'r) search_state \<Rightarrow> error + ('p, 'd, 'r) search_state" where
  "findNN ix rs vec maxChecks nd st =
     (if childs nd = [] then
        (if checks st \<ge> maxChecks \<and> full rs (result st) then Inr st
         else Inr (score_points ix rs vec (points nd) st))
      else if branching' ix < 1 \<or> length (childs nd) < nat (branching' ix) then Inl UndefinedBehaviour
      else
        (case domain_distances (distance' ix) vec (take (nat (branching' ix)) (childs nd)) of
           Inl e \<Rightarrow> Inl e
         | Inr ds \<Rightarrow>
             findNN ix rs vec maxChecks (childs nd ! best_index ds (nat (branching' ix)))
               (st\<lparr>heap := insert_others (childs nd) ds (nat (branching' ix))
                               (best_index ds (nat (branching' ix))) (heap st)\<rparr>)))"
  by pat_completeness auto
termination
  apply (relation "measure (\<lambda>(ix, rs, vec, maxChecks, nd, st). size nd)")
   apply simp
  subgoal for ix rs vec maxChecks nd st ds
    using best_index_less[of "nat (branching' ix)" ds]
      size_nth_childs[of "best_index ds (nat (branching' ix))" "childs nd"]
    by (cases nd) auto
  done

declare findNN.simps [simp del]

text \<open>The first loop of \<open>findNeighbors\<close>: one descent from the root of each tree (lines 277-279).\<close>

fun descend_roots ::
  "('p, 'd::linorder, 'g) HierarchicalClusteringIndex \<Rightarrow> ('d, 'r) ResultSet \<Rightarrow> 'p \<Rightarrow> int \<Rightarrow>
   nat list \<Rightarrow> ('p, 'd, 'r) search_state \<Rightarrow> error + ('p, 'd, 'r) search_state" where
  "descend_roots ix rs vec maxChecks [] st = Inr st"
| "descend_roots ix rs vec maxChecks (i # rest) st =
     (if i < length (tree_roots' ix) then
        (case findNN ix rs vec maxChecks (tree_roots' ix ! i) st of
           Inl e \<Rightarrow> Inl e
         | Inr st' \<Rightarrow> descend_roots ix rs vec maxChecks rest st')
      else Inl UndefinedBehaviour)"

definition heap_weight :: "('p, 'd) BranchSt list \<Rightarrow> nat" where
  "heap_weight h = sum_list (map (\<lambda>b. size (node b)) h)"

lemma sum_filter_best:
  "best < B \<Longrightarrow>
   sum_list (map f (filter (\<lambda>i. i \<noteq> best) [0..<B])) + f best = sum_list (map (f::nat \<Rightarrow> nat) [0..<B])"
proof (induction B)
  case 0
  then show ?case by simp
next
  case (Suc B)
  show ?case
  proof (cases "best = B")
    case True
    have "filter (\<lambda>i. i \<noteq> B) [0..<B] = [0..<B]" by (rule filter_True) simp
    with True show ?thesis by simp
  next
    case False
    with Suc have "best < B" by simp
    with Suc.IH False show ?thesis by simp
  qed
qed

lemma sum_size_childs:
  "B \<le> length cs \<Longrightarrow> sum_list (map (\<lambda>i. size (cs ! i)) [0..<B]) \<le> size_list size cs"
proof -
  assume b: "B \<le> length cs"
  have "map (\<lambda>i. cs ! i) [0..<B] = take B cs"
    using b by (simp add: list_eq_iff_nth_eq)
  then have "map (\<lambda>i. size (cs ! i)) [0..<B] = map size (take B cs)"
    by (metis (no_types, lifting) map_map o_def map_eq_conv)
  moreover have "sum_list (map size (take B cs)) \<le> sum_list (map size cs)"
    by (metis append_take_drop_id le_add1 map_append sum_list.append)
  ultimately show ?thesis by (simp add: size_list_conv_sum_list)
qed

lemma new_Heap_simps [simp]: "heap' (new_Heap sz) = []" "length' (new_Heap sz) = sz"
  by (simp_all add: new_Heap_def)

lemma take_least_None: "take_least h = None \<longleftrightarrow> h = []"
  by (cases h) (simp_all split: option.splits prod.splits)

lemma take_least_mset: "take_least h = Some (b, h') \<Longrightarrow> mset h = add_mset b (mset h')"
  by (induction h arbitrary: b h') (auto simp: take_least_None split: option.splits if_splits)


lemma popMin_mset: "popMin h = Some (b, h') \<Longrightarrow> mset (heap' h) = add_mset b (mset (heap' h'))"
  by (auto simp: popMin_def dest: take_least_mset split: option.splits)


lemma heap_weight_sum_mset: "heap_weight h = sum_mset (image_mset (\<lambda>b. size (node b)) (mset h))"
  unfolding heap_weight_def by (induction h) simp_all

lemma heap_weight_mset: "mset h = mset h' \<Longrightarrow> heap_weight h = heap_weight h'"
  by (simp add: heap_weight_sum_mset)

lemma popMin_weight:
  "popMin h = Some (b, h') \<Longrightarrow> heap_weight (heap' h) = size (node b) + heap_weight (heap' h')"
  using heap_weight_mset[of "heap' h" "b # heap' h'"] popMin_mset[of h b h'] by (simp add: heap_weight_def)

text \<open>
  What the loop of insertions leaves in the heap: the branches of the other children in
  the order of the children, as many of them as the heap has room for.
\<close>

definition others :: "'p Node list \<Rightarrow> 'd list \<Rightarrow> nat \<Rightarrow> nat \<Rightarrow> ('p, 'd) BranchSt list" where
  "others cs ds B best = map (\<lambda>i. BranchSt (cs ! i) (ds ! i)) (filter (\<lambda>i. i \<noteq> best) [0..<B])"

definition room :: "('p, 'd) Heap \<Rightarrow> nat \<Rightarrow> nat" where
  "room h n = (if int (length (heap' h)) \<le> length' h then min n (nat (length' h) - length (heap' h)) else n)"

lemma fold_heap_insert:
  "fold (\<lambda>i h'. if i \<noteq> best then heap_insert (BranchSt (cs ! i) (ds ! i)) h' else h') js h =
     h\<lparr>heap' := heap' h @
          take (room h (length (filter (\<lambda>i. i \<noteq> best) js)))
            (map (\<lambda>i. BranchSt (cs ! i) (ds ! i)) (filter (\<lambda>i. i \<noteq> best) js))\<rparr>"
proof (induction js arbitrary: h)
  case Nil
  then show ?case by simp
next
  case (Cons j js)
  show ?case
  proof (cases "j = best")
    case True
    with Cons.IH[of h] show ?thesis by simp
  next
    case False
    show ?thesis
    proof (cases "int (length (heap' h)) = length' h")
      case True
      with False Cons.IH[of h] show ?thesis by (simp add: heap_insert_def room_def)
    next
      case full: False
      let ?h1 = "h\<lparr>heap' := heap' h @ [BranchSt (cs ! j) (ds ! j)]\<rparr>"
      have r: "room h (Suc n) = Suc (room ?h1 n)" for n
        using full by (auto simp: room_def min_def)
      from False full Cons.IH[of ?h1] show ?thesis by (simp add: heap_insert_def r)
    qed
  qed
qed

lemma insert_others_eq:
  "insert_others cs ds B best h =
     h\<lparr>heap' := heap' h @ take (room h (length (others cs ds B best))) (others cs ds B best)\<rparr>"
  by (simp add: insert_others_def others_def fold_heap_insert)


lemma score_points_heap: "heap (score_points ix rs vec ps s) = heap s"
  by (induction ps arbitrary: s) simp_all

lemma heap_weight_take: "heap_weight (take n xs) \<le> heap_weight xs"
proof -
  have "heap_weight xs = heap_weight (take n xs) + heap_weight (drop n xs)"
    unfolding heap_weight_def by (metis append_take_drop_id map_append sum_list.append)
  then show ?thesis by simp
qed

lemma insert_others_weight:
  assumes "best < B" "B \<le> length cs"
  shows "heap_weight (heap' (insert_others cs ds B best h)) + size (cs ! best) \<le>
         heap_weight (heap' h) + size_list size cs"
proof -
  have "heap_weight (heap' (insert_others cs ds B best h)) \<le>
        heap_weight (heap' h) + heap_weight (others cs ds B best)"
    using heap_weight_take[of "room h (length (others cs ds B best))" "others cs ds B best"]
    by (simp add: insert_others_eq heap_weight_def)
  moreover have "heap_weight (others cs ds B best) =
      sum_list (map (\<lambda>i. size (cs ! i)) (filter (\<lambda>i. i \<noteq> best) [0..<B]))"
    by (simp add: others_def heap_weight_def o_def)
  ultimately show ?thesis
    using sum_filter_best[OF assms(1), of "\<lambda>i. size (cs ! i)"] sum_size_childs[OF assms(2)]
    by simp
qed

lemma findNN_heap_weight:
  "findNN ix rs vec maxChecks nd st = Inr st' \<Longrightarrow> heap_weight (heap' (heap st')) < heap_weight (heap' (heap st)) + size nd"
proof (induction ix rs vec maxChecks nd st rule: findNN.induct)
  case (1 ix rs vec maxChecks nd st)
  show ?case
  proof (cases "childs nd = []")
    case True
    with "1.prems" have "heap st' = heap st"
      by (auto simp: findNN.simps[of ix rs vec maxChecks nd st] score_points_heap split: if_splits)
    moreover have "0 < size nd" by (cases nd) simp
    ultimately show ?thesis by simp
  next
    case False
    let ?B = "nat (branching' ix)"
    from False "1.prems" have ok: "\<not> (branching' ix < 1 \<or> length (childs nd) < ?B)"
      by (auto simp: findNN.simps[of ix rs vec maxChecks nd st] split: if_splits)
    with False "1.prems" obtain ds where
      ds: "domain_distances (distance' ix) vec (take ?B (childs nd)) = Inr ds"
      and rec: "findNN ix rs vec maxChecks (childs nd ! best_index ds ?B)
                 (st\<lparr>heap := insert_others (childs nd) ds ?B (best_index ds ?B) (heap st)\<rparr>) = Inr st'"
      by (auto simp: findNN.simps[of ix rs vec maxChecks nd st] split: if_splits sum.splits)
    from ok have b: "best_index ds ?B < ?B" by (intro best_index_less) auto
    from "1.IH"[OF False ok ds rec]
    have "heap_weight (heap' (heap st')) < heap_weight (heap' (insert_others (childs nd) ds ?B (best_index ds ?B) (heap st)))
            + size (childs nd ! best_index ds ?B)" by simp
    also have "\<dots> \<le> heap_weight (heap' (heap st)) + size_list size (childs nd)"
      using insert_others_weight[OF b, of "childs nd" ds "heap st"] ok by simp
    also have "\<dots> < heap_weight (heap' (heap st)) + size nd" by (cases nd) simp
    finally show ?thesis .
  qed
qed

text \<open>
  The second loop of \<open>findNeighbors\<close> (lines 281-285): \<open>popMin\<close> is evaluated first, so
  the branch is taken off the heap also when the loop then stops.
\<close>

function search_loop ::
  "('p, 'd::linorder, 'g) HierarchicalClusteringIndex \<Rightarrow> ('d, 'r) ResultSet \<Rightarrow> 'p \<Rightarrow> int \<Rightarrow>
   ('p, 'd, 'r) search_state \<Rightarrow> error + ('p, 'd, 'r) search_state" where
  "search_loop ix rs vec maxChecks st =
     (case popMin (heap st) of
        None \<Rightarrow> Inr st
      | Some (branch, h) \<Rightarrow>
          if checks st < maxChecks \<or> \<not> full rs (result st) then
            (case findNN ix rs vec maxChecks (node branch) (st\<lparr>heap := h\<rparr>) of
               Inl e \<Rightarrow> Inl e
             | Inr st' \<Rightarrow> search_loop ix rs vec maxChecks st')
          else Inr (st\<lparr>heap := h\<rparr>))"
  by pat_completeness auto
termination
  apply (relation "measure (\<lambda>(ix, rs, vec, maxChecks, st). heap_weight (heap' (heap st)))")
   apply simp
  subgoal for ix rs vec maxChecks st x2 branch h st'
    using popMin_weight[of "heap st" branch h]
      findNN_heap_weight[of ix rs vec maxChecks "node branch" "st\<lparr>heap := h\<rparr>" st']
    by simp
  done

declare search_loop.simps [simp del]

text \<open>
  \<open>findNeighbors\<close> (lines 267-289): the state it ends in, and the accumulator it leaves
  to its caller. The heap is created with \<open>size\<close> as its argument; see the model of the
  heap above.
\<close>

definition findNeighbors_state ::
  "('p, 'd::linorder, 'g) HierarchicalClusteringIndex \<Rightarrow> ('d, 'r) ResultSet \<Rightarrow> 'r \<Rightarrow> 'p \<Rightarrow> int \<Rightarrow>
   error + ('p, 'd, 'r) search_state" where
  "findNeighbors_state ix rs res vec maxChecks =
     (case descend_roots ix rs vec maxChecks [0..<nat (trees' ix)]
             \<lparr>result = res, checks = 0, heap = new_Heap (int (length (points' ix))), checked = {}\<rparr> of
        Inl e \<Rightarrow> Inl e
      | Inr st \<Rightarrow> search_loop ix rs vec maxChecks st)"

definition findNeighbors ::
  "('p, 'd::linorder, 'g) HierarchicalClusteringIndex \<Rightarrow> ('d, 'r) ResultSet \<Rightarrow> 'r \<Rightarrow> 'p \<Rightarrow> int \<Rightarrow>
   error + 'r" where
  "findNeighbors ix rs res vec maxChecks =
     (case findNeighbors_state ix rs res vec maxChecks of
        Inl e \<Rightarrow> Inl e
      | Inr st \<Rightarrow> Inr (result st))"

section \<open>Observing what a query offers to its accumulator\<close>

text \<open>
  Any accumulator can be run beside a record of the calls of \<open>addPoint\<close>, in the order
  they are made: the pairs (distance, index) offered. A distance is computed for the point
  of a leaf exactly when it is offered (lines 480-481).
\<close>

definition traced :: "('d, 'r) ResultSet \<Rightarrow> ('d, 'r \<times> ('d \<times> nat) list) ResultSet" where
  "traced rs =
     \<lparr>addPoint = (\<lambda>d i (r, offers). (addPoint rs d i r, offers @ [(d, i)])),
      full = (\<lambda>(r, offers). full rs r)\<rparr>"

definition offered :: "('p, 'd, 'r \<times> ('d \<times> nat) list) search_state \<Rightarrow> ('d \<times> nat) list" where
  "offered st = snd (result st)"

definition score_step ::
  "('p, 'd, 'g) HierarchicalClusteringIndex \<Rightarrow> ('d, 'r) ResultSet \<Rightarrow> 'p \<Rightarrow> 'p PointInfo \<Rightarrow>
   ('p, 'd, 'r) search_state \<Rightarrow> ('p, 'd, 'r) search_state" where
  "score_step ix rs vec pointInfo st =
     st\<lparr>result := addPoint rs (distance' ix (point pointInfo) vec) (index pointInfo) (result st),
        checked := insert (index pointInfo) (checked st),
        checks := checks st + 1\<rparr>"

lemma score_points_invariant:
  assumes step: "\<And>s pointInfo. I s \<Longrightarrow> index pointInfo \<notin> checked s \<Longrightarrow>
            \<not> removed_points' ix (index pointInfo) \<Longrightarrow> I (score_step ix rs vec pointInfo s)"
  shows "I st \<Longrightarrow> I (score_points ix rs vec ps st)"
proof (induction ps arbitrary: st)
  case Nil
  then show ?case by simp
next
  case (Cons p ps)
  show ?case
  proof (cases "index p \<in> checked st \<or> removed_points' ix (index p)")
    case True
    with Cons show ?thesis by simp
  next
    case False
    with Cons.prems have "I (score_step ix rs vec p st)" by (intro step) auto
    from Cons.IH[OF this] False show ?thesis by (simp add: score_step_def)
  qed
qed

lemma findNN_invariant:
  "(\<And>s pointInfo. I s \<Longrightarrow> index pointInfo \<notin> checked s \<Longrightarrow>
       \<not> removed_points' ix (index pointInfo) \<Longrightarrow> I (score_step ix rs vec pointInfo s)) \<Longrightarrow>
   (\<And>s h. I s \<Longrightarrow> I (s\<lparr>heap := h\<rparr>)) \<Longrightarrow>
   I st \<Longrightarrow> findNN ix rs vec maxChecks nd st = Inr st' \<Longrightarrow> I st'"
proof (induction ix rs vec maxChecks nd st rule: findNN.induct)
  case (1 ix rs vec maxChecks nd st)
  note step = "1.prems"(1) and hp = "1.prems"(2)
  show ?case
  proof (cases "childs nd = []")
    case True
    with "1.prems"(4) have "st' = st \<or> st' = score_points ix rs vec (points nd) st"
      by (auto simp: findNN.simps[of ix rs vec maxChecks nd st] split: if_splits)
    with "1.prems"(3) score_points_invariant[of I ix rs vec st "points nd", OF step]
    show ?thesis by auto
  next
    case False
    let ?B = "nat (branching' ix)"
    from False "1.prems"(4) have ok: "\<not> (branching' ix < 1 \<or> length (childs nd) < ?B)"
      by (auto simp: findNN.simps[of ix rs vec maxChecks nd st] split: if_splits)
    with False "1.prems"(4) obtain ds where
      ds: "domain_distances (distance' ix) vec (take ?B (childs nd)) = Inr ds"
      and rec: "findNN ix rs vec maxChecks (childs nd ! best_index ds ?B)
                 (st\<lparr>heap := insert_others (childs nd) ds ?B (best_index ds ?B) (heap st)\<rparr>) = Inr st'"
      by (auto simp: findNN.simps[of ix rs vec maxChecks nd st] split: if_splits sum.splits)
    show ?thesis
    proof (rule "1.IH"[OF False ok ds _ _ _ rec])
      show "I (st\<lparr>heap := insert_others (childs nd) ds ?B (best_index ds ?B) (heap st)\<rparr>)"
        by (rule hp) (rule "1.prems"(3))
    qed (erule (2) step, erule hp)
  qed
qed

lemma descend_roots_invariant:
  assumes step: "\<And>s pointInfo. I s \<Longrightarrow> index pointInfo \<notin> checked s \<Longrightarrow>
            \<not> removed_points' ix (index pointInfo) \<Longrightarrow> I (score_step ix rs vec pointInfo s)"
    and hp: "\<And>s h. I s \<Longrightarrow> I (s\<lparr>heap := h\<rparr>)"
  shows "I st \<Longrightarrow> descend_roots ix rs vec maxChecks js st = Inr st' \<Longrightarrow> I st'"
proof (induction js arbitrary: st)
  case Nil
  then show ?case by simp
next
  case (Cons j js)
  from Cons.prems(2) obtain st1 where
    a: "findNN ix rs vec maxChecks (tree_roots' ix ! j) st = Inr st1"
    and b: "descend_roots ix rs vec maxChecks js st1 = Inr st'"
    by (auto split: if_splits sum.splits)
  from findNN_invariant[of I ix rs vec, OF step hp Cons.prems(1) a] have "I st1" .
  from Cons.IH[OF this b] show ?case .
qed

lemma search_loop_invariant:
  "(\<And>s pointInfo. I s \<Longrightarrow> index pointInfo \<notin> checked s \<Longrightarrow>
       \<not> removed_points' ix (index pointInfo) \<Longrightarrow> I (score_step ix rs vec pointInfo s)) \<Longrightarrow>
   (\<And>s h. I s \<Longrightarrow> I (s\<lparr>heap := h\<rparr>)) \<Longrightarrow>
   I st \<Longrightarrow> search_loop ix rs vec maxChecks st = Inr st' \<Longrightarrow> I st'"
proof (induction ix rs vec maxChecks st rule: search_loop.induct)
  case (1 ix rs vec maxChecks st)
  note step = "1.prems"(1) and hp = "1.prems"(2)
  show ?case
  proof (cases "popMin (heap st)")
    case None
    with "1.prems"(3,4) show ?thesis by (simp add: search_loop.simps[of ix rs vec maxChecks st])
  next
    case (Some a)
    then obtain branch h where bh: "popMin (heap st) = Some (branch, h)" by (cases a) auto
    show ?thesis
    proof (cases "checks st < maxChecks \<or> \<not> full rs (result st)")
      case True
      with bh "1.prems"(4) obtain st1 where
        a: "findNN ix rs vec maxChecks (node branch) (st\<lparr>heap := h\<rparr>) = Inr st1"
        and b: "search_loop ix rs vec maxChecks st1 = Inr st'"
        by (auto simp: search_loop.simps[of ix rs vec maxChecks st] split: sum.splits)
      from findNN_invariant[of I ix rs vec, OF step hp hp[OF "1.prems"(3)] a] have "I st1" .
      show ?thesis
      proof (rule "1.IH"[OF bh refl True a _ _ _ b])
        show "I st1" by fact
      qed (erule (2) step, erule hp)
    next
      case False
      with bh "1.prems"(4) have "st' = st\<lparr>heap := h\<rparr>"
        by (auto simp: search_loop.simps[of ix rs vec maxChecks st])
      with hp[OF "1.prems"(3)] show ?thesis by simp
    qed
  qed
qed

lemma findNeighbors_state_invariant:
  assumes step: "\<And>s pointInfo. I s \<Longrightarrow> index pointInfo \<notin> checked s \<Longrightarrow>
            \<not> removed_points' ix (index pointInfo) \<Longrightarrow> I (score_step ix rs vec pointInfo s)"
    and hp: "\<And>s h. I s \<Longrightarrow> I (s\<lparr>heap := h\<rparr>)"
    and init: "I \<lparr>result = res, checks = 0, heap = new_Heap (int (length (points' ix))), checked = {}\<rparr>"
    and run: "findNeighbors_state ix rs res vec maxChecks = Inr st'"
  shows "I st'"
proof -
  from run obtain st1 where
    a: "descend_roots ix rs vec maxChecks [0..<nat (trees' ix)]
          \<lparr>result = res, checks = 0, heap = new_Heap (int (length (points' ix))), checked = {}\<rparr> = Inr st1"
    and b: "search_loop ix rs vec maxChecks st1 = Inr st'"
    by (auto simp: findNeighbors_state_def split: sum.splits)
  from descend_roots_invariant[of I ix rs vec, OF step hp init a] have "I st1" .
  from search_loop_invariant[of I ix rs vec, OF step hp this b] show ?thesis .
qed

lemma score_step_traced_offered:
  "offered (score_step ix (traced rs) vec p s) = offered s @ [(distance' ix (point p) vec, index p)]"
  by (simp add: score_step_def offered_def traced_def split: prod.splits)

lemma score_step_checked: "checked (score_step ix rs vec p s) = insert (index p) (checked s)"
  by (simp add: score_step_def)

lemma findNeighbors_traced_state:
  "findNeighbors ix (traced rs) (res, []) vec maxChecks = Inr (res', offers) \<Longrightarrow>
   \<exists>st'. findNeighbors_state ix (traced rs) (res, []) vec maxChecks = Inr st' \<and> offered st' = offers"
  by (auto simp: findNeighbors_def offered_def split: sum.splits)

text \<open>The state of the run beside which the record is kept.\<close>

definition untraced ::
  "('p, 'd, 'r \<times> ('d \<times> nat) list) search_state \<Rightarrow> ('p, 'd, 'r) search_state" where
  "untraced st = \<lparr>result = fst (result st), checks = checks st, heap = heap st, checked = checked st\<rparr>"

lemma untraced_simps:
  "checks (untraced st) = checks st" "heap (untraced st) = heap st" "checked (untraced st) = checked st"
  "result (untraced st) = fst (result st)"
  "untraced (st\<lparr>heap := h\<rparr>) = (untraced st)\<lparr>heap := h\<rparr>"
  "full (traced rs) (result st) = full rs (fst (result st))"
  by (simp_all add: untraced_def traced_def split: prod.splits)

lemma score_points_untraced:
  "untraced (score_points ix (traced rs) vec ps st) = score_points ix rs vec ps (untraced st)"
proof (induction ps arbitrary: st)
  case Nil
  then show ?case by simp
next
  case (Cons p ps)
  have "untraced (st\<lparr>result := addPoint (traced rs) d i (result st), checked := c, checks := n\<rparr>) =
        (untraced st)\<lparr>result := addPoint rs d i (result (untraced st)), checked := c, checks := n\<rparr>" for d i c n
    by (simp add: untraced_def traced_def split: prod.splits)
  with Cons show ?case by (simp add: untraced_simps)
qed

lemma findNN_untraced:
  "map_sum id untraced (findNN ix (traced rs) vec maxChecks nd st) =
   findNN ix rs vec maxChecks nd (untraced st)"
proof (induction ix "traced rs" vec maxChecks nd st rule: findNN.induct)
  case (1 ix vec maxChecks nd st)
  show ?case
  proof (cases "childs nd = [] \<or> branching' ix < 1 \<or> length (childs nd) < nat (branching' ix)")
    case True
    then show ?thesis
      by (auto simp: findNN.simps[of ix _ vec maxChecks nd] untraced_simps score_points_untraced)
  next
    case False
    show ?thesis
    proof (cases "domain_distances (distance' ix) vec (take (nat (branching' ix)) (childs nd))")
      case (Inl e)
      with False show ?thesis by (simp add: findNN.simps[of ix _ vec maxChecks nd])
    next
      case (Inr ds)
      from False have a: "childs nd \<noteq> []" "\<not> (branching' ix < 1 \<or> length (childs nd) < nat (branching' ix))"
        by simp_all
      from "1.hyps"[OF a Inr] False Inr show ?thesis
        by (simp add: findNN.simps[of ix _ vec maxChecks nd] untraced_simps)
    qed
  qed
qed


lemma descend_roots_untraced:
  "map_sum id untraced (descend_roots ix (traced rs) vec maxChecks js st) =
   descend_roots ix rs vec maxChecks js (untraced st)"
proof (induction js arbitrary: st)
  case Nil
  then show ?case by simp
next
  case (Cons j js)
  show ?case
  proof (cases "findNN ix (traced rs) vec maxChecks (tree_roots' ix ! j) st")
    case (Inl e)
    with findNN_untraced[of ix rs vec maxChecks "tree_roots' ix ! j" st, symmetric] show ?thesis by simp
  next
    case (Inr st1)
    with findNN_untraced[of ix rs vec maxChecks "tree_roots' ix ! j" st, symmetric] Cons.IH[of st1]
    show ?thesis by simp
  qed
qed

lemma search_loop_untraced:
  "map_sum id untraced (search_loop ix (traced rs) vec maxChecks st) =
   search_loop ix rs vec maxChecks (untraced st)"
proof (induction ix "traced rs" vec maxChecks st rule: search_loop.induct)
  case (1 ix vec maxChecks st)
  show ?case
  proof (cases "popMin (heap st)")
    case None
    then show ?thesis
      by (simp add: search_loop.simps[of ix _ vec maxChecks st]
          search_loop.simps[of ix _ vec maxChecks "untraced st"] untraced_simps)
  next
    case (Some a)
    then obtain branch h where bh: "popMin (heap st) = Some (branch, h)" by (cases a) auto
    show ?thesis
    proof (cases "checks st < maxChecks \<or> \<not> full (traced rs) (result st)")
      case False
      with bh show ?thesis
        by (simp add: search_loop.simps[of ix _ vec maxChecks st]
            search_loop.simps[of ix _ vec maxChecks "untraced st"] untraced_simps)
    next
      case True
      show ?thesis
      proof (cases "findNN ix (traced rs) vec maxChecks (node branch) (st\<lparr>heap := h\<rparr>)")
        case (Inl e)
        with findNN_untraced[of ix rs vec maxChecks "node branch" "st\<lparr>heap := h\<rparr>", symmetric] bh True
        show ?thesis
          by (simp add: search_loop.simps[of ix _ vec maxChecks st]
              search_loop.simps[of ix _ vec maxChecks "untraced st"] untraced_simps)
      next
        case (Inr st1)
        with findNN_untraced[of ix rs vec maxChecks "node branch" "st\<lparr>heap := h\<rparr>", symmetric] bh True
          "1.hyps"[OF bh refl True Inr]
        show ?thesis
          by (simp add: search_loop.simps[of ix _ vec maxChecks st]
              search_loop.simps[of ix _ vec maxChecks "untraced st"] untraced_simps)
      qed
    qed
  qed
qed

text \<open>Recording the offers does not change the query: its accumulator is the one of the plain run.\<close>

lemma findNeighbors_traced:
  fixes ix :: "('p, 'd::linorder, 'g) HierarchicalClusteringIndex" and rs :: "('d, 'r) ResultSet"
  shows "map_sum id fst (findNeighbors ix (traced rs) (res, offers) vec maxChecks) =
   findNeighbors ix rs res vec maxChecks"
proof -
  let ?st0 = "\<lparr>result = (res, offers), checks = 0, heap = new_Heap (int (length (points' ix))), checked = {}\<rparr>
                :: ('p, 'd, 'r \<times> ('d \<times> nat) list) search_state"
  have u: "untraced ?st0 = \<lparr>result = res, checks = 0, heap = new_Heap (int (length (points' ix))), checked = {}\<rparr>"
    by (simp add: untraced_def)
  show ?thesis
  proof (cases "descend_roots ix (traced rs) vec maxChecks [0..<nat (trees' ix)] ?st0")
    case (Inl e)
    with descend_roots_untraced[of ix rs vec maxChecks "[0..<nat (trees' ix)]" ?st0, symmetric] u
    show ?thesis by (simp add: findNeighbors_def findNeighbors_state_def)
  next
    case (Inr st1)
    with descend_roots_untraced[of ix rs vec maxChecks "[0..<nat (trees' ix)]" ?st0, symmetric] u
    have d: "descend_roots ix rs vec maxChecks [0..<nat (trees' ix)]
               \<lparr>result = res, checks = 0, heap = new_Heap (int (length (points' ix))), checked = {}\<rparr> = Inr (untraced st1)"
      by simp
    show ?thesis
    proof (cases "search_loop ix (traced rs) vec maxChecks st1")
      case (Inl e)
      with search_loop_untraced[of ix rs vec maxChecks st1, symmetric] Inr d show ?thesis
        by (simp add: findNeighbors_def findNeighbors_state_def)
    next
      case r: (Inr st2)
      with search_loop_untraced[of ix rs vec maxChecks st1, symmetric] Inr d show ?thesis
        by (simp add: findNeighbors_def findNeighbors_state_def untraced_simps)
    qed
  qed
qed

text \<open>
  Claim C4. Whatever the trees, the accumulator, the query and the budget: when
  \<open>findNeighbors\<close> returns, no index whose removed flag is set has been offered to the
  accumulator.
\<close>

theorem removed_never_offered:
  fixes ix :: "('p, 'd::linorder, 'g) HierarchicalClusteringIndex" and rs :: "('d, 'r) ResultSet"
  assumes run: "findNeighbors ix (traced rs) (res, []) vec maxChecks = Inr (res', offers)"
    and rem: "removed_points' ix i"
  shows "i \<notin> snd ` set offers"
proof -
  from findNeighbors_traced_state[OF run] obtain st' where
    st': "findNeighbors_state ix (traced rs) (res, []) vec maxChecks = Inr st'" "offered st' = offers"
    by blast
  define I where "I = (\<lambda>s :: ('p, 'd, 'r \<times> ('d \<times> nat) list) search_state. i \<notin> snd ` set (offered s))"
  have "I st'"
  proof (rule findNeighbors_state_invariant[of I ix "traced rs" vec, OF _ _ _ st'(1)])
    show "I (score_step ix (traced rs) vec p s)" if "I s" "\<not> removed_points' ix (index p)" for s p
      using that rem by (auto simp: I_def score_step_traced_offered)
    show "I (s\<lparr>heap := h\<rparr>)" if "I s" for s h
      using that by (simp add: I_def offered_def)
    show "I \<lparr>result = (res, []), checks = 0, heap = new_Heap (int (length (points' ix))), checked = {}\<rparr>"
      by (simp add: I_def offered_def)
  qed
  with st'(2) show ?thesis by (simp add: I_def)
qed

text \<open>
  Claim C3. Whatever the trees (any number of them, an index in any number of leaves),
  the accumulator, the query and the budget: when \<open>findNeighbors\<close> returns, no index
  has been scored twice, over the descents from all roots and from all branches popped.
\<close>

theorem scored_at_most_once:
  fixes ix :: "('p, 'd::linorder, 'g) HierarchicalClusteringIndex" and rs :: "('d, 'r) ResultSet"
  assumes run: "findNeighbors ix (traced rs) (res, []) vec maxChecks = Inr (res', offers)"
  shows "distinct (map snd offers)"
proof -
  from findNeighbors_traced_state[OF run] obtain st' where
    st': "findNeighbors_state ix (traced rs) (res, []) vec maxChecks = Inr st'" "offered st' = offers"
    by blast
  define I where "I = (\<lambda>s :: ('p, 'd, 'r \<times> ('d \<times> nat) list) search_state.
    distinct (map snd (offered s)) \<and> snd ` set (offered s) \<subseteq> checked s)"
  have "I st'"
  proof (rule findNeighbors_state_invariant[of I ix "traced rs" vec, OF _ _ _ st'(1)])
    show "I (score_step ix (traced rs) vec p s)" if "I s" "index p \<notin> checked s" for s p
      using that by (auto simp: I_def score_step_traced_offered score_step_checked)
    show "I (s\<lparr>heap := h\<rparr>)" if "I s" for s h
      using that by (simp add: I_def offered_def)
    show "I \<lparr>result = (res, []), checks = 0, heap = new_Heap (int (length (points' ix))), checked = {}\<rparr>"
      by (simp add: I_def offered_def)
  qed
  with st'(2) show ?thesis by (simp add: I_def)
qed

lemma score_points_Cons_skip:
  "index p \<in> checked st \<or> removed_points' ix (index p) \<Longrightarrow>
   score_points ix rs vec (p # ps) st = score_points ix rs vec ps st"
  by simp

lemma score_points_Cons_step:
  "\<not> (index p \<in> checked st \<or> removed_points' ix (index p)) \<Longrightarrow>
   score_points ix rs vec (p # ps) st = score_points ix rs vec ps (score_step ix rs vec p st)"
  by (simp add: score_step_def)

lemma score_step_checks: "checks (score_step ix rs vec p s) = checks s + 1"
  by (simp add: score_step_def)

lemma score_points_traced:
  fixes ix :: "('p, 'd, 'g) HierarchicalClusteringIndex" and rs :: "('d, 'r) ResultSet"
    and st :: "('p, 'd, 'r \<times> ('d \<times> nat) list) search_state"
  shows "\<exists>new. offered (score_points ix (traced rs) vec ps st) = offered st @ new \<and>
     distinct (map snd new) \<and>
     snd ` set new = {i. \<exists>p \<in> set ps. index p = i \<and> i \<notin> checked st \<and> \<not> removed_points' ix i} \<and>
     (\<forall>(d, i) \<in> set new. \<exists>p \<in> set ps. index p = i \<and> d = distance' ix (point p) vec) \<and>
     checks (score_points ix (traced rs) vec ps st) = checks st + int (length new) \<and>
     checked (score_points ix (traced rs) vec ps st) = checked st \<union> snd ` set new"
proof (induction ps arbitrary: st)
  case Nil
  show ?case by simp
next
  case (Cons p ps)
  show ?case
  proof (cases "index p \<in> checked st \<or> removed_points' ix (index p)")
    case True
    from Cons.IH[of st] obtain new where new:
      "offered (score_points ix (traced rs) vec ps st) = offered st @ new"
      "distinct (map snd new)"
      "snd ` set new = {i. \<exists>p \<in> set ps. index p = i \<and> i \<notin> checked st \<and> \<not> removed_points' ix i}"
      "\<forall>(d, i) \<in> set new. \<exists>p \<in> set ps. index p = i \<and> d = distance' ix (point p) vec"
      "checks (score_points ix (traced rs) vec ps st) = checks st + int (length new)"
      "checked (score_points ix (traced rs) vec ps st) = checked st \<union> snd ` set new"
      by blast
    have "snd ` set new = {i. \<exists>q \<in> set (p # ps). index q = i \<and> i \<notin> checked st \<and> \<not> removed_points' ix i}"
      using new(3) True by auto
    moreover have "\<forall>(d, i) \<in> set new. \<exists>q \<in> set (p # ps). index q = i \<and> d = distance' ix (point q) vec"
      using new(4) by fastforce
    ultimately show ?thesis
      unfolding score_points_Cons_skip[OF True] using new(1,2,5,6) by blast
  next
    case False
    let ?s1 = "score_step ix (traced rs) vec p st"
    let ?x = "(distance' ix (point p) vec, index p)"
    from Cons.IH[of ?s1] obtain new where new:
      "offered (score_points ix (traced rs) vec ps ?s1) = offered ?s1 @ new"
      "distinct (map snd new)"
      "snd ` set new = {i. \<exists>p \<in> set ps. index p = i \<and> i \<notin> checked ?s1 \<and> \<not> removed_points' ix i}"
      "\<forall>(d, i) \<in> set new. \<exists>p \<in> set ps. index p = i \<and> d = distance' ix (point p) vec"
      "checks (score_points ix (traced rs) vec ps ?s1) = checks ?s1 + int (length new)"
      "checked (score_points ix (traced rs) vec ps ?s1) = checked ?s1 \<union> snd ` set new"
      by blast
    have 1: "offered (score_points ix (traced rs) vec ps ?s1) = offered st @ (?x # new)"
      using new(1) by (simp add: score_step_traced_offered)
    have 2: "distinct (map snd (?x # new))"
      using new(2,3) by (auto simp: score_step_checked)
    have 3: "snd ` set (?x # new) =
        {i. \<exists>q \<in> set (p # ps). index q = i \<and> i \<notin> checked st \<and> \<not> removed_points' ix i}"
      using new(3) False by (auto simp: score_step_checked)
    have 4: "\<forall>(d, i) \<in> set (?x # new). \<exists>q \<in> set (p # ps). index q = i \<and> d = distance' ix (point q) vec"
      using new(4) by fastforce
    have 5: "checks (score_points ix (traced rs) vec ps ?s1) = checks st + int (length (?x # new))"
      using new(5) by (simp add: score_step_checks)
    have 6: "checked (score_points ix (traced rs) vec ps ?s1) = checked st \<union> snd ` set (?x # new)"
      using new(6) by (auto simp: score_step_checked)
    show ?thesis
      unfolding score_points_Cons_step[OF False] using 1 2 3 4 5 6 by blast
  qed
qed

section \<open>A k-nearest-neighbour accumulator and a worked example\<close>

text \<open>
  Modelled from the spec: the classes of flann/util/result\_set.h are not part of the
  sources. The spec gives the accumulator the operations \<open>addPoint(d, index)\<close>
  (best-effort insertion) and \<open>full()\<close>, and speaks of the top-k it holds: the
  accumulator of capacity \<open>k\<close> keeps the \<open>k\<close> least pairs offered so far, in ascending
  order of distance and then of index, and is full once it holds \<open>k\<close> pairs.
\<close>

definition KNNResultSet :: "nat \<Rightarrow> ('d::linorder, ('d \<times> nat) list) ResultSet" where
  "KNNResultSet k =
     \<lparr>addPoint = (\<lambda>d i r. take k (insort (d, i) r)),
      full = (\<lambda>r. k \<le> length r)\<rparr>"

text \<open>
  The example: five points on the integer line under the distance \<open>|a - b|\<close>, a chooser
  that takes the first candidates as centers, branching 2 and leaf size 3. The tree is
  the one \<open>buildIndex\<close> builds for these (see \<open>buildIndex_example\<close> below); the point of
  index 2 is flagged as removed afterwards.
\<close>

definition example_chooser :: "int \<Rightarrow> nat list \<Rightarrow> unit \<Rightarrow> nat list \<times> unit" where
  "example_chooser k indices g = (take (nat k) indices, g)"

definition example_leaf :: "int Node" where
  "example_leaf = Node (Some 6) [] [PointInfo 2 6, PointInfo 4 20]"

definition example_tree :: "int Node" where
  "example_tree =
     Node None
       [Node (Some 5) [Node (Some 5) [] [PointInfo 0 5], example_leaf] [],
        Node (Some 0) [] [PointInfo 3 1, PointInfo 1 0]] []"

definition example_index :: "(int, int, unit) HierarchicalClusteringIndex" where
  "example_index =
     \<lparr>points' = [5, 0, 6, 1, 20],
      removed_points' = (\<lambda>i. i = 2),
      distance' = (\<lambda>a b. \<bar>a - b\<bar>),
      chooseCenters' = example_chooser,
      random' = (),
      branching' = 2,
      trees' = 1,
      centers_init' = 0,
      leaf_size' = 3,
      memoryCounter' = 0,
      tree_roots' = [example_tree],
      size_at_build' = 5\<rparr>"

text \<open>The state of a query that has scored index 0 at distance 1.\<close>

definition example_state :: "(int, int, (int \<times> nat) list \<times> (int \<times> nat) list) search_state" where
  "example_state = \<lparr>result = ([(1, 0)], [(1, 0)]), checks = 1, heap = new_Heap 5, checked = {0}\<rparr>"

lemma example_query:
  "findNeighbors example_index (traced (KNNResultSet 1)) ([], []) 4 5 =
     Inr ([(1, 0)], [(1, 0), (16, 4), (3, 3), (4, 1)])"
  by code_simp

theorem removed_never_offered_witness:
  "findNeighbors example_index (traced (KNNResultSet 1)) ([], []) 4 5 =
     Inr ([(1, 0)], [(1, 0), (16, 4), (3, 3), (4, 1)]) \<and>
   removed_points' example_index 2 \<and>
   2 \<notin> snd ` set [(1 :: int, 0 :: nat), (16, 4), (3, 3), (4, 1)]"
proof -
  have rem: "removed_points' example_index 2" by (simp add: example_index_def)
  from removed_never_offered[OF example_query rem] example_query rem show ?thesis by blast
qed

theorem scored_at_most_once_witness:
  "findNeighbors example_index (traced (KNNResultSet 1)) ([], []) 4 5 =
     Inr ([(1, 0)], [(1, 0), (16, 4), (3, 3), (4, 1)]) \<and>
   distinct (map snd [(1 :: int, 0 :: nat), (16, 4), (3, 3), (4, 1)])"
  using scored_at_most_once[OF example_query] example_query by blast

text \<open>
  Claim C7. At a leaf, \<open>findNN\<close> returns at once, the state unchanged, when the budget
  is reached and the accumulator is full. In every other case it offers every point of
  the leaf that is neither checked nor removed, each index once, with its distance to the
  query, and counts each in \<open>checks\<close>: no test of the budget stands inside the loop, so
  \<open>checks\<close> may pass it.
\<close>

theorem leaf_visit:
  fixes ix :: "('p, 'd::linorder, 'g) HierarchicalClusteringIndex" and rs :: "('d, 'r) ResultSet"
    and st :: "('p, 'd, 'r \<times> ('d \<times> nat) list) search_state"
  assumes leaf: "childs nd = []"
  shows "(maxChecks \<le> checks st \<and> full rs (fst (result st)) \<longrightarrow>
            findNN ix (traced rs) vec maxChecks nd st = Inr st) \<and>
         (\<not> (maxChecks \<le> checks st \<and> full rs (fst (result st))) \<longrightarrow>
            (\<exists>st' new. findNN ix (traced rs) vec maxChecks nd st = Inr st' \<and>
               offered st' = offered st @ new \<and>
               distinct (map snd new) \<and>
               snd ` set new =
                 {i. \<exists>p \<in> set (points nd). index p = i \<and> i \<notin> checked st \<and> \<not> removed_points' ix i} \<and>
               (\<forall>(d, i) \<in> set new. \<exists>p \<in> set (points nd). index p = i \<and> d = distance' ix (point p) vec) \<and>
               checks st' = checks st + int (length new) \<and>
               checked st' = checked st \<union> snd ` set new))"
proof -
  have f: "full (traced rs) (result st) = full rs (fst (result st))"
    by (simp add: traced_def split: prod.splits)
  show ?thesis
    using score_points_traced[of ix rs vec "points nd" st] leaf
    by (simp add: findNN.simps[of ix "traced rs" vec maxChecks nd st] f)
qed

text \<open>
  At the example leaf \<open>[2, 4]\<close> with the budget 1 reached: an accumulator of capacity 1
  is full and nothing is scored; one of capacity 2 is not, and index 4 is scored (index 2
  is removed), which takes \<open>checks\<close> to 2.
\<close>

theorem leaf_visit_witness:
  "childs example_leaf = [] \<and>
   findNN example_index (traced (KNNResultSet 1)) 4 1 example_leaf example_state = Inr example_state \<and>
   (\<exists>st' new. findNN example_index (traced (KNNResultSet 2)) 4 1 example_leaf example_state = Inr st' \<and>
      offered st' = [(1, 0)] @ new \<and> snd ` set new = {4} \<and> checks st' = 1 + int (length new))"
proof -
  have leaf: "childs example_leaf = []" by (simp add: example_leaf_def)
  have s: "{i. \<exists>p \<in> set (points example_leaf). index p = i \<and> i \<notin> checked example_state \<and>
              \<not> removed_points' example_index i} = {4}"
    by (auto simp: example_leaf_def example_state_def example_index_def)
  have 1: "findNN example_index (traced (KNNResultSet 1)) 4 1 example_leaf example_state = Inr example_state"
    using leaf_visit[OF leaf, of 1 example_state "KNNResultSet 1" example_index 4]
    by (simp add: example_state_def KNNResultSet_def)
  have 2: "\<exists>st' new. findNN example_index (traced (KNNResultSet 2)) 4 1 example_leaf example_state = Inr st' \<and>
      offered st' = [(1, 0)] @ new \<and> snd ` set new = {4} \<and> checks st' = 1 + int (length new)"
    using leaf_visit[OF leaf, of 1 example_state "KNNResultSet 2" example_index 4]
    unfolding s by (auto simp: example_state_def KNNResultSet_def offered_def)
  from leaf 1 2 show ?thesis by blast
qed

section \<open>Persistence: saveIndex and loadIndex\<close>

text \<open>
  The stream is the sequence of the values written, each with the type it was written
  at: an \<open>int\<close>, a \<open>size_t\<close> or a pivot pointer. \<open>save_value\<close> and \<open>load_value\<close>
  (flann/util/saving.h) are not part of the sources: reading fails with an exception at
  the end of the stream, and a value of another type than the one read is outside what
  a saved index holds and fails likewise.
\<close>

datatype 'p token = TInt int | TSize nat | TPtr "'p option"

fun load_int :: "'p token list \<Rightarrow> error + int \<times> 'p token list" where
  "load_int (TInt v # s) = Inr (v, s)"
| "load_int _ = Inl (FLANNException ''Cannot read from file'')"

fun load_size :: "'p token list \<Rightarrow> error + nat \<times> 'p token list" where
  "load_size (TSize v # s) = Inr (v, s)"
| "load_size _ = Inl (FLANNException ''Cannot read from file'')"

fun load_ptr :: "'p token list \<Rightarrow> error + 'p option \<times> 'p token list" where
  "load_ptr (TPtr v # s) = Inr (v, s)"
| "load_ptr _ = Inl (FLANNException ''Cannot read from file'')"

text \<open>
  \<open>save_tree\<close> (lines 331-346) writes the pivot and the number of children of a node,
  then its children; the points of a node are not written.
\<close>

fun save_tree :: "'p Node \<Rightarrow> 'p token list" where
  "save_tree (Node pv cs ps) = [TPtr pv, TSize (length cs)] @ concat (map save_tree cs)"

fun save_roots :: "'p Node list \<Rightarrow> nat list \<Rightarrow> error + 'p token list" where
  "save_roots roots [] = Inr []"
| "save_roots roots (i # rest) =
     (if i < length roots then
        (case save_roots roots rest of
           Inl e \<Rightarrow> Inl e
         | Inr s \<Rightarrow> Inr (save_tree (roots ! i) @ s))
      else Inl UndefinedBehaviour)"

definition saveIndex :: "('p, 'd, 'g) HierarchicalClusteringIndex \<Rightarrow> error + 'p token list" where
  "saveIndex ix =
     (case save_roots (tree_roots' ix) [0..<nat (trees' ix)] of
        Inl e \<Rightarrow> Inl e
      | Inr s \<Rightarrow>
          Inr ([TInt (branching' ix), TInt (trees' ix), TInt (centers_init' ix),
                TInt (leaf_size' ix), TInt (memoryCounter' ix)] @ s))"

text \<open>
  \<open>load_tree\<close> (lines 349-366) makes each node anew, reads its pivot and its number
  of children, and reads that many children; nothing is assigned to the points of a node.
  The nesting of its calls is bounded by the fuel, which \<open>loadIndex\<close> takes from the
  length of the stream.
\<close>

fun load_childs ::
  "('p token list \<Rightarrow> error + 'p Node \<times> 'p token list) \<Rightarrow> nat \<Rightarrow> 'p token list \<Rightarrow>
   error + 'p Node list \<times> 'p token list" where
  "load_childs load 0 s = Inr ([], s)"
| "load_childs load (Suc n) s =
     (case load s of
        Inl e \<Rightarrow> Inl e
      | Inr (c, s') \<Rightarrow>
          (case load_childs load n s' of
             Inl e \<Rightarrow> Inl e
           | Inr (cs, s'') \<Rightarrow> Inr (c # cs, s'')))"

primrec load_tree :: "nat \<Rightarrow> 'p token list \<Rightarrow> error + 'p Node \<times> 'p token list" where
  "load_tree 0 s = Inl OutOfFuel"
| "load_tree (Suc fuel) s =
     seq (load_ptr s) (\<lambda>(pv, s1).
     seq (load_size s1) (\<lambda>(childs_size, s2).
       if childs_size = 0 then Inr (Node pv [] [], s2)
       else seq (load_childs (load_tree fuel) childs_size s2) (\<lambda>(cs, s3). Inr (Node pv cs [], s3))))"

text \<open>
  \<open>loadIndex\<close> (lines 238-255); the copy of the parameters into \<open>index_params\<close> is not
  modelled. A negative number of trees makes \<open>resize\<close> throw.
\<close>

definition loadIndex ::
  "('p, 'd, 'g) HierarchicalClusteringIndex \<Rightarrow> 'p token list \<Rightarrow>
   error + ('p, 'd, 'g) HierarchicalClusteringIndex \<times> 'p token list" where
  "loadIndex ix s =
     seq (load_int s) (\<lambda>(b, s1).
     seq (load_int s1) (\<lambda>(t, s2).
     seq (load_int s2) (\<lambda>(c, s3).
     seq (load_int s3) (\<lambda>(l, s4).
     seq (load_int s4) (\<lambda>(m, s5).
       if t < 0 then Inl LengthError
       else seq (load_childs (load_tree (Suc (length s5))) (nat t) s5) (\<lambda>(roots, s6).
         Inr (ix\<lparr>branching' := b, trees' := t, centers_init' := c, leaf_size' := l,
                 memoryCounter' := m, tree_roots' := roots\<rparr>, s6)))))))"


fun all_points_empty :: "'p Node \<Rightarrow> bool" where
  "all_points_empty (Node pv cs ps) \<longleftrightarrow> ps = [] \<and> (\<forall>c \<in> set cs. all_points_empty c)"

lemma seq_Inr: "seq m f = Inr y \<longleftrightarrow> (\<exists>x. m = Inr x \<and> f x = Inr y)"
  by (cases m) (simp_all add: seq_def)

lemma load_childs_all:
  "(\<And>s nd s'. load s = Inr (nd, s') \<Longrightarrow> P nd) \<Longrightarrow> load_childs load n s = Inr (cs, s') \<Longrightarrow>
   (\<forall>c \<in> set cs. P c) \<and> length cs = n"
proof (induction n arbitrary: s cs)
  case 0
  then show ?case by simp
next
  case (Suc n)
  from Suc.prems(2) obtain c s1 cs1 where
    c: "load s = Inr (c, s1)" and r: "load_childs load n s1 = Inr (cs1, s')" and cs: "cs = c # cs1"
    by (auto split: sum.splits)
  from Suc.IH[OF Suc.prems(1) r] Suc.prems(1)[OF c] cs show ?case by simp
qed

lemma load_tree_points: "load_tree fuel s = Inr (nd, s') \<Longrightarrow> all_points_empty nd"
proof (induction fuel arbitrary: s nd s')
  case 0
  then show ?case by simp
next
  case (Suc fuel)
  from Suc.prems obtain pv s1 n s2 where
    "load_ptr s = Inr (pv, s1)" "load_size s1 = Inr (n, s2)"
    and r: "(if n = 0 then Inr (Node pv [] [], s2)
         else seq (load_childs (load_tree fuel) n s2) (\<lambda>(cs, s3). Inr (Node pv cs [], s3))) = Inr (nd, s')"
    by (auto simp: seq_Inr)
  show ?case
  proof (cases "n = 0")
    case True
    with r show ?thesis by auto
  next
    case False
    with r obtain cs where cs: "load_childs (load_tree fuel) n s2 = Inr (cs, s')" and nd: "nd = Node pv cs []"
      by (auto simp: seq_Inr)
    from load_childs_all[of "load_tree fuel" all_points_empty, OF Suc.IH cs] nd show ?thesis by simp
  qed
qed

lemma loadIndex_points:
  "loadIndex ix s = Inr (ix', rest) \<Longrightarrow> \<forall>nd \<in> set (tree_roots' ix'). all_points_empty nd"
proof -
  assume "loadIndex ix s = Inr (ix', rest)"
  then obtain fuel n s5 roots where "load_childs (load_tree fuel) n s5 = Inr (roots, rest)"
    and "tree_roots' ix' = roots"
    by (auto simp: loadIndex_def seq_Inr split: if_splits)
  with load_childs_all[of "load_tree fuel" all_points_empty n s5 roots rest] load_tree_points
  show ?thesis by blast
qed

lemma all_points_empty_childs: "all_points_empty nd \<Longrightarrow> c \<in> set (childs nd) \<Longrightarrow> all_points_empty c"
  by (cases nd) simp

lemma all_points_empty_points: "all_points_empty nd \<Longrightarrow> points nd = []"
  by (cases nd) simp

lemma insert_others_set:
  "B \<le> length cs \<Longrightarrow>
   node ` set (heap' (insert_others cs ds B best h)) \<subseteq> node ` set (heap' h) \<union> set cs"
  by (auto simp: insert_others_eq others_def dest!: in_set_takeD)

lemma findNN_empty:
  "all_points_empty nd \<Longrightarrow> \<forall>b \<in> set (heap' (heap st)). all_points_empty (node b) \<Longrightarrow>
   findNN ix rs vec maxChecks nd st = Inr st' \<Longrightarrow>
   result st' = result st \<and> (\<forall>b \<in> set (heap' (heap st')). all_points_empty (node b))"
proof (induction ix rs vec maxChecks nd st rule: findNN.induct)
  case (1 ix rs vec maxChecks nd st)
  show ?case
  proof (cases "childs nd = []")
    case True
    with "1.prems" all_points_empty_points[of nd] have "st' = st"
      by (auto simp: findNN.simps[of ix rs vec maxChecks nd st] split: if_splits)
    with "1.prems" show ?thesis by simp
  next
    case False
    let ?B = "nat (branching' ix)"
    from False "1.prems"(3) have ok: "\<not> (branching' ix < 1 \<or> length (childs nd) < ?B)"
      by (auto simp: findNN.simps[of ix rs vec maxChecks nd st] split: if_splits)
    with False "1.prems"(3) obtain ds where
      ds: "domain_distances (distance' ix) vec (take ?B (childs nd)) = Inr ds"
      and rec: "findNN ix rs vec maxChecks (childs nd ! best_index ds ?B)
                 (st\<lparr>heap := insert_others (childs nd) ds ?B (best_index ds ?B) (heap st)\<rparr>) = Inr st'"
      by (auto simp: findNN.simps[of ix rs vec maxChecks nd st] split: if_splits sum.splits)
    from ok have b: "best_index ds ?B < length (childs nd)"
      using best_index_less[of ?B ds] by auto
    have 1: "all_points_empty (childs nd ! best_index ds ?B)"
      using all_points_empty_childs[OF "1.prems"(1)] b by simp
    have 2: "\<forall>b \<in> set (heap' (heap (st\<lparr>heap := insert_others (childs nd) ds ?B (best_index ds ?B) (heap st)\<rparr>))).
               all_points_empty (node b)"
      using insert_others_set[of ?B "childs nd" ds "best_index ds ?B" "heap st"] ok
        "1.prems"(2) all_points_empty_childs[OF "1.prems"(1)]
      by (auto simp: image_subset_iff)
    from "1.IH"[OF False ok ds 1 2 rec] show ?thesis by simp
  qed
qed

lemma descend_roots_empty:
  "\<forall>nd \<in> set (tree_roots' ix). all_points_empty nd \<Longrightarrow>
   \<forall>b \<in> set (heap' (heap st)). all_points_empty (node b) \<Longrightarrow>
   descend_roots ix rs vec maxChecks js st = Inr st' \<Longrightarrow>
   result st' = result st \<and> (\<forall>b \<in> set (heap' (heap st')). all_points_empty (node b))"
proof (induction js arbitrary: st)
  case Nil
  then show ?case by simp
next
  case (Cons j js)
  from Cons.prems(3) obtain st1 where j: "j < length (tree_roots' ix)"
    and a: "findNN ix rs vec maxChecks (tree_roots' ix ! j) st = Inr st1"
    and b: "descend_roots ix rs vec maxChecks js st1 = Inr st'"
    by (auto split: if_splits sum.splits)
  from j Cons.prems(1) have "all_points_empty (tree_roots' ix ! j)" by simp
  from findNN_empty[OF this Cons.prems(2) a] Cons.IH[OF Cons.prems(1) _ b] show ?case by simp
qed

lemma search_loop_empty:
  "\<forall>b \<in> set (heap' (heap st)). all_points_empty (node b) \<Longrightarrow>
   search_loop ix rs vec maxChecks st = Inr st' \<Longrightarrow> result st' = result st"
proof (induction ix rs vec maxChecks st rule: search_loop.induct)
  case (1 ix rs vec maxChecks st)
  show ?case
  proof (cases "popMin (heap st)")
    case None
    with "1.prems" show ?thesis by (simp add: search_loop.simps[of ix rs vec maxChecks st])
  next
    case (Some a)
    then obtain branch h where bh: "popMin (heap st) = Some (branch, h)" by (cases a) auto
    from popMin_mset[OF bh] have sh: "set (heap' (heap st)) = insert branch (set (heap' h))"
      by (metis set_mset_add_mset_insert set_mset_mset)
    show ?thesis
    proof (cases "checks st < maxChecks \<or> \<not> full rs (result st)")
      case True
      with bh "1.prems"(2) obtain st1 where
        a: "findNN ix rs vec maxChecks (node branch) (st\<lparr>heap := h\<rparr>) = Inr st1"
        and b: "search_loop ix rs vec maxChecks st1 = Inr st'"
        by (auto simp: search_loop.simps[of ix rs vec maxChecks st] split: sum.splits)
      from findNN_empty[OF _ _ a] "1.prems"(1) sh
      have "result st1 = result st \<and> (\<forall>b \<in> set (heap' (heap st1)). all_points_empty (node b))" by simp
      with "1.IH"[OF bh refl True a _ b] show ?thesis by simp
    next
      case False
      with bh "1.prems"(2) have "st' = st\<lparr>heap := h\<rparr>"
        by (auto simp: search_loop.simps[of ix rs vec maxChecks st])
      then show ?thesis by simp
    qed
  qed
qed

text \<open>
  Claim C8. Every node that \<open>loadIndex\<close> reads back has an empty points list, so a
  query on the index as loaded, whatever the accumulator, the query vector and the
  budget, offers no point: when it returns, the accumulator is the one it was given.
\<close>

theorem loaded_index_offers_nothing:
  fixes ix :: "('p, 'd::linorder, 'g) HierarchicalClusteringIndex" and rs :: "('d, 'r) ResultSet"
  assumes load: "loadIndex ix stream = Inr (ix', rest)"
  shows "(\<forall>nd \<in> set (tree_roots' ix'). all_points_empty nd) \<and>
         (findNeighbors ix' (traced rs) (res, []) vec maxChecks = Inr (res', offers) \<longrightarrow>
            offers = [] \<and> res' = res)"
proof (intro conjI impI)
  show e: "\<forall>nd \<in> set (tree_roots' ix'). all_points_empty nd"
    by (rule loadIndex_points[OF load])
  assume "findNeighbors ix' (traced rs) (res, []) vec maxChecks = Inr (res', offers)"
  then obtain st1 st2 where
    a: "descend_roots ix' (traced rs) vec maxChecks [0..<nat (trees' ix')]
          \<lparr>result = (res, []), checks = 0, heap = new_Heap (int (length (points' ix'))), checked = {}\<rparr> = Inr st1"
    and b: "search_loop ix' (traced rs) vec maxChecks st1 = Inr st2"
    and c: "result st2 = (res', offers)"
    by (auto simp: findNeighbors_def findNeighbors_state_def split: sum.splits)
  from descend_roots_empty[OF e _ a]
  have "result st1 = (res, []) \<and> (\<forall>b \<in> set (heap' (heap st1)). all_points_empty (node b))" by simp
  with search_loop_empty[OF _ b] c show "offers = []" "res' = res" by simp_all
qed

text \<open>The example index saved, read back, and queried.\<close>

lemma example_save:
  "saveIndex example_index =
     Inr [TInt 2, TInt 1, TInt 0, TInt 3, TInt 0, TPtr None, TSize 2,
          TPtr (Some 5), TSize 2, TPtr (Some 5), TSize 0, TPtr (Some 6),
          TSize 0, TPtr (Some 0), TSize 0]"
  by code_simp

definition example_loaded :: "(int, int, unit) HierarchicalClusteringIndex" where
  "example_loaded =
     example_index\<lparr>tree_roots' :=
       [Node None [Node (Some 5) [Node (Some 5) [] [], Node (Some 6) [] []] [], Node (Some 0) [] []] []]\<rparr>"

lemma example_load:
  "loadIndex example_index
     [TInt 2, TInt 1, TInt 0, TInt 3, TInt 0, TPtr None, TSize 2,
      TPtr (Some 5), TSize 2, TPtr (Some 5), TSize 0, TPtr (Some 6),
      TSize 0, TPtr (Some 0), TSize 0] = Inr (example_loaded, [])"
  by (simp add: loadIndex_def seq_def example_loaded_def example_index_def numeral_eq_Suc)

lemma example_loaded_query:
  "findNeighbors example_loaded (traced (KNNResultSet 1)) ([], []) 4 5 = Inr ([], [])"
  by code_simp


theorem loaded_index_offers_nothing_witness:
  "loadIndex example_index
     [TInt 2, TInt 1, TInt 0, TInt 3, TInt 0, TPtr None, TSize 2,
      TPtr (Some 5), TSize 2, TPtr (Some 5), TSize 0, TPtr (Some 6),
      TSize 0, TPtr (Some 0), TSize 0] = Inr (example_loaded, []) \<and>
   list_all all_points_empty (tree_roots' example_loaded) \<and>
   findNeighbors example_loaded (traced (KNNResultSet 1)) ([], []) 4 5 = Inr ([], [])"
  using loaded_index_offers_nothing[OF example_load, of "KNNResultSet 1" "[]" 4 5 "[]" "[]"]
    example_load example_loaded_query
  by (simp add: list_all_iff)

lemma load_ptr_length: "load_ptr s = Inr (pv, s') \<Longrightarrow> length s' < length s"
  by (cases s rule: load_ptr.cases) auto

lemma load_size_length: "load_size s = Inr (n, s') \<Longrightarrow> length s' < length s"
  by (cases s rule: load_size.cases) auto

lemma load_int_length: "load_int s = Inr (v, s') \<Longrightarrow> length s' < length s"
  by (cases s rule: load_int.cases) auto

lemma load_childs_length:
  "(\<And>s nd s'. load s = Inr (nd, s') \<Longrightarrow> length s' \<le> length s) \<Longrightarrow>
   load_childs load n s = Inr (cs, s') \<Longrightarrow> length s' \<le> length s"
proof (induction n arbitrary: s cs)
  case 0
  then show ?case by simp
next
  case (Suc n)
  from Suc.prems(2) obtain c s1 cs1 where
    c: "load s = Inr (c, s1)" and r: "load_childs load n s1 = Inr (cs1, s')"
    by (auto split: sum.splits)
  have "length s' \<le> length s1" by (rule Suc.IH[OF _ r]) (erule Suc.prems(1))
  with Suc.prems(1)[OF c] show ?case by simp
qed

lemma load_tree_length: "load_tree fuel s = Inr (nd, s') \<Longrightarrow> length s' \<le> length s"
proof (induction fuel arbitrary: s nd s')
  case 0
  then show ?case by simp
next
  case (Suc fuel)
  from Suc.prems obtain pv s1 n s2 where
    l: "load_ptr s = Inr (pv, s1)" "load_size s1 = Inr (n, s2)"
    and r: "(if n = 0 then Inr (Node pv [] [], s2)
         else seq (load_childs (load_tree fuel) n s2) (\<lambda>(cs, s3). Inr (Node pv cs [], s3))) = Inr (nd, s')"
    by (auto simp: seq_Inr)
  from load_ptr_length[OF l(1)] load_size_length[OF l(2)] have s2: "length s2 \<le> length s" by simp
  show ?case
  proof (cases "n = 0")
    case True
    with r s2 show ?thesis by auto
  next
    case False
    with r obtain cs where cs: "load_childs (load_tree fuel) n s2 = Inr (cs, s')"
      by (auto simp: seq_Inr)
    have "length s' \<le> length s2"
      by (rule load_childs_length[of "load_tree fuel", OF _ cs]) (erule Suc.IH)
    with s2 show ?thesis by simp
  qed
qed

lemma load_childs_fuel:
  "(\<And>s. length s \<le> m \<Longrightarrow> load s \<noteq> Inl OutOfFuel) \<Longrightarrow>
   (\<And>s nd s'. load s = Inr (nd, s') \<Longrightarrow> length s' \<le> length s) \<Longrightarrow>
   length s \<le> m \<Longrightarrow> load_childs load n s \<noteq> Inl OutOfFuel"
proof (induction n arbitrary: s)
  case 0
  then show ?case by simp
next
  case (Suc n)
  show ?case
  proof (cases "load s")
    case (Inl e)
    with Suc.prems(1)[OF Suc.prems(3)] show ?thesis by simp
  next
    case (Inr p)
    then obtain c s1 where c: "load s = Inr (c, s1)" by (cases p) auto
    from Suc.prems(2)[OF c] Suc.prems(3) have "length s1 \<le> m" by simp
    have "load_childs load n s1 \<noteq> Inl OutOfFuel"
      by (rule Suc.IH[OF _ _ \<open>length s1 \<le> m\<close>]) (erule Suc.prems(1), erule Suc.prems(2))
    with c show ?thesis by (auto split: sum.splits)
  qed
qed

lemma load_ptr_exception: "load_ptr s \<noteq> Inl OutOfFuel"
  by (cases s rule: load_ptr.cases) auto

lemma load_size_exception: "load_size s \<noteq> Inl OutOfFuel"
  by (cases s rule: load_size.cases) auto

lemma load_int_exception: "load_int s \<noteq> Inl OutOfFuel"
  by (cases s rule: load_int.cases) auto

lemmas load_exception = load_ptr_exception load_size_exception load_int_exception

lemma seq_Inl: "seq m f = Inl e \<longleftrightarrow> m = Inl e \<or> (\<exists>x. m = Inr x \<and> f x = Inl e)"
  by (cases m) (simp_all add: seq_def)

lemma load_tree_fuel: "length s < fuel \<Longrightarrow> load_tree fuel s \<noteq> Inl OutOfFuel"
proof (induction fuel arbitrary: s)
  case 0
  then show ?case by simp
next
  case (Suc fuel)
  have "load_childs (load_tree fuel) n s2 \<noteq> Inl OutOfFuel"
    if "load_ptr s = Inr (pv, s1)" "load_size s1 = Inr (n, s2)" for pv s1 n s2
  proof -
    from load_ptr_length[OF that(1)] load_size_length[OF that(2)] Suc.prems
    have l: "length s2 < fuel" by simp
    have ih: "load_tree fuel t \<noteq> Inl OutOfFuel" if "length t \<le> length s2" for t :: "'a token list"
      using that l Suc.IH[of t] by simp
    show ?thesis
      by (rule load_childs_fuel[of "length s2" "load_tree fuel"]) (erule ih, erule load_tree_length, simp)
  qed
  then show ?case
    by (auto simp: seq_Inl load_exception split: if_splits)
qed

text \<open>The fuel that \<open>loadIndex\<close> gives to \<open>load_tree\<close> is always enough.\<close>

lemma loadIndex_fuel: "loadIndex ix s \<noteq> Inl OutOfFuel"
proof -
  have "load_childs (load_tree (Suc (length s5))) n s5 \<noteq> Inl OutOfFuel" for s5 :: "'a token list" and n
    by (rule load_childs_fuel[of "length s5"]) (rule load_tree_fuel, simp, erule load_tree_length, simp)
  then show ?thesis
    by (auto simp: loadIndex_def seq_Inl load_exception split: if_splits)
qed

section \<open>Building: computeLabels and computeClustering\<close>

text \<open>
  \<open>computeLabels\<close> (lines 371-387): the label of a point is the first center of least
  distance. The sum \<open>cost\<close> is a local of the caller that nothing reads, and is left out.
  Reading a row of the dataset at an index that is not below \<open>size\<close>, or \<open>centers[0]\<close>
  when there is no center, is undefined.
\<close>

definition label_of :: "('p, 'd::linorder, 'g) HierarchicalClusteringIndex \<Rightarrow> nat list \<Rightarrow> nat \<Rightarrow> nat" where
  "label_of ix centers i =
     fst (fold (\<lambda>j (label, dist).
                  if dist > distance' ix (points' ix ! i) (points' ix ! (centers ! j))
                  then (j, distance' ix (points' ix ! i) (points' ix ! (centers ! j)))
                  else (label, dist))
            [1..<length centers]
            (0, distance' ix (points' ix ! i) (points' ix ! (centers ! 0))))"

definition computeLabels ::
  "('p, 'd::linorder, 'g) HierarchicalClusteringIndex \<Rightarrow> nat list \<Rightarrow> nat list \<Rightarrow> error + nat list" where
  "computeLabels ix indices centers =
     (if indices = [] then Inr []
      else if centers = [] \<or> (\<exists>i \<in> set indices. length (points' ix) \<le> i)
              \<or> (\<exists>c \<in> set centers. length (points' ix) \<le> c)
      then Inl UndefinedBehaviour
      else Inr (map (label_of ix centers) indices))"

text \<open>
  The inner loop of the partition (lines 436-442) for the label \<open>i\<close>: \<open>j\<close> scans the
  whole array and every entry of label \<open>i\<close> is swapped, in both arrays, with the entry
  at \<open>e\<close> (the variable \<open>end\<close> of the source).
\<close>

definition swap :: "'a list \<Rightarrow> nat \<Rightarrow> nat \<Rightarrow> 'a list" where
  "swap xs a b = xs[a := xs ! b, b := xs ! a]"

function partition_pass :: "nat \<Rightarrow> nat \<Rightarrow> nat \<Rightarrow> nat list \<Rightarrow> nat list \<Rightarrow> nat list \<times> nat list \<times> nat" where
  "partition_pass i j e indices labels =
     (if j < length indices then
        (if labels ! j = i
         then partition_pass i (Suc j) (Suc e) (swap indices j e) (swap labels j e)
         else partition_pass i (Suc j) e indices labels)
      else (indices, labels, e))"
  by pat_completeness auto
termination
  by (relation "measure (\<lambda>(i, j, e, indices, labels). length indices - j)") (auto simp: swap_def)

declare partition_pass.simps [simp del]

text \<open>The leaf case (lines 402-408 and 418-424): the points are rewritten, the children cleared.\<close>

definition make_leaf ::
  "('p, 'd, 'g) HierarchicalClusteringIndex \<Rightarrow> 'p Node \<Rightarrow> nat list \<Rightarrow> error + 'p Node" where
  "make_leaf ix nd indices =
     (if \<exists>i \<in> set indices. length (points' ix) \<le> i then Inl UndefinedBehaviour
      else Inr (Node (pivot nd) [] (map (\<lambda>i. PointInfo i (points' ix ! i)) indices)))"

text \<open>
  The outer loop (lines 435-449), from the label \<open>i\<close> on, with the recursive call as
  a parameter: each child is a new node with its pivot, clustered on its slice of the
  array, which the call may reorder in place. The children made so far are \<open>cs\<close>.
\<close>

function cluster_children ::
  "('p Node \<Rightarrow> nat list \<Rightarrow> 'g \<Rightarrow> error + 'p Node \<times> nat list \<times> 'g) \<Rightarrow>
   ('p, 'd, 'g) HierarchicalClusteringIndex \<Rightarrow> nat list \<Rightarrow> nat \<Rightarrow> nat \<Rightarrow> nat list \<Rightarrow> nat list \<Rightarrow>
   'p Node list \<Rightarrow> 'g \<Rightarrow> error + 'p Node list \<times> nat list \<times> 'g" where
  "cluster_children rec ix centers i start indices labels cs g =
     (if int i < branching' ix then
        (case partition_pass i 0 start indices labels of
           (indices1, labels1, e) \<Rightarrow>
             (case rec (Node (Some (points' ix ! (centers ! i))) [] [])
                       (take (e - start) (drop start indices1)) g of
                Inl err \<Rightarrow> Inl err
              | Inr (child, part, g') \<Rightarrow>
                  cluster_children rec ix centers (Suc i) e
                    (take start indices1 @ part @ drop e indices1) labels1 (cs @ [child]) g'))
      else Inr (cs, indices, g))"
  by pat_completeness auto
termination
  by (relation "measure (\<lambda>(rec, ix, centers, i, start, indices, labels, cs, g). nat (branching' ix) - i)") auto

declare cluster_children.simps [simp del]

text \<open>
  \<open>computeClustering\<close> (lines 399-450) returns the node, the array \<open>indices\<close> as it
  leaves it, and the state of the random source. The recursion need not end (a chooser
  may return centers that send every point to one child), so its depth is bounded by
  fuel. A negative \<open>branching\<close> makes the constructor of \<open>centers\<close> throw; a chooser
  that writes more than \<open>branching\<close> centers overruns that vector. When the node is
  split its points are left as they are (line 432 resizes the children only).
\<close>

primrec computeClustering ::
  "nat \<Rightarrow> ('p, 'd::linorder, 'g) HierarchicalClusteringIndex \<Rightarrow> 'p Node \<Rightarrow> nat list \<Rightarrow> 'g \<Rightarrow>
   error + 'p Node \<times> nat list \<times> 'g" where
  "computeClustering 0 ix nd indices g = Inl OutOfFuel"
| "computeClustering (Suc fuel) ix nd indices g =
     (if int (length indices) < leaf_size' ix then
        (case make_leaf ix nd indices of Inl err \<Rightarrow> Inl err | Inr leaf \<Rightarrow> Inr (leaf, indices, g))
      else if branching' ix < 0 then Inl LengthError
      else
        (case chooseCenters' ix (branching' ix) indices g of
           (centers, g1) \<Rightarrow>
             if nat (branching' ix) < length centers then Inl UndefinedBehaviour
             else if int (length centers) < branching' ix then
               (case make_leaf ix nd indices of Inl err \<Rightarrow> Inl err | Inr leaf \<Rightarrow> Inr (leaf, indices, g1))
             else if \<exists>c \<in> set centers. length (points' ix) \<le> c then Inl UndefinedBehaviour
             else
               (case computeLabels ix indices centers of
                  Inl err \<Rightarrow> Inl err
                | Inr labels \<Rightarrow>
                    (case cluster_children (computeClustering fuel ix) ix centers 0 0 indices labels [] g1 of
                       Inl err \<Rightarrow> Inl err
                     | Inr (cs, indices', g') \<Rightarrow> Inr (Node (pivot nd) cs (points nd), indices', g')))))"


lemma swap_props:
  assumes "e \<le> j" "j < length xs"
  shows "mset (swap xs j e) = mset xs"
    and "length (swap xs j e) = length xs"
    and "map f (swap xs j e) = swap (map f xs) j e"
    and "take e (swap xs j e) = take e xs"
    and "swap xs j e ! e = xs ! j"
    and "swap xs j e ! j = xs ! e"
    and "k \<noteq> e \<Longrightarrow> k \<noteq> j \<Longrightarrow> swap xs j e ! k = xs ! k"
  using assms by (auto simp: swap_def mset_swap map_update nth_list_update)

lemma partition_pass_props:
  "labels = map lab xs \<Longrightarrow> e \<le> length xs \<Longrightarrow>
   (\<forall>k. min j e \<le> k \<and> k < max j e \<longrightarrow> lab (xs ! k) \<noteq> i) \<Longrightarrow>
   partition_pass i j e xs labels = (xs', labels', e') \<Longrightarrow>
   mset xs' = mset xs \<and> take e xs' = take e xs \<and> e \<le> e' \<and> e' \<le> length xs \<and>
   labels' = map lab xs' \<and>
   (\<forall>k. e \<le> k \<and> k < e' \<longrightarrow> lab (xs' ! k) = i) \<and>
   (\<forall>k. e' \<le> k \<and> k < length xs \<longrightarrow> lab (xs' ! k) \<noteq> i)"
proof (induction i j e xs labels rule: partition_pass.induct)
  case (1 i j e xs labels)
  note lab = "1.prems"(1) and en = "1.prems"(2) and pre = "1.prems"(3) and run = "1.prems"(4)
  show ?case
  proof (cases "j < length xs")
    case False
    with run have r: "xs' = xs" "labels' = labels" "e' = e"
      by (simp_all add: partition_pass.simps[of i j e xs labels])
    from False en pre have "\<forall>k. e \<le> k \<and> k < length xs \<longrightarrow> lab (xs ! k) \<noteq> i"
      by (auto simp: min_def max_def)
    with r lab en show ?thesis by simp
  next
    case jn: True
    show ?thesis
    proof (cases "labels ! j = i")
      case False
      with jn run have r: "partition_pass i (Suc j) e xs labels = (xs', labels', e')"
        by (simp add: partition_pass.simps[of i j e xs labels])
      from False lab jn have nj: "lab (xs ! j) \<noteq> i" by simp
      have pre': "\<forall>k. min (Suc j) e \<le> k \<and> k < max (Suc j) e \<longrightarrow> lab (xs ! k) \<noteq> i"
      proof (intro allI impI)
        fix k assume k: "min (Suc j) e \<le> k \<and> k < max (Suc j) e"
        show "lab (xs ! k) \<noteq> i"
        proof (cases "k = j")
          case True
          with nj show ?thesis by simp
        next
          case False
          with k have "min j e \<le> k \<and> k < max j e" by (auto simp: min_def max_def split: if_splits)
          with pre show ?thesis by blast
        qed
      qed
      from "1.IH"(2)[OF jn False lab en pre' r] show ?thesis .
    next
      case True
      with jn run have r: "partition_pass i (Suc j) (Suc e) (swap xs j e) (swap labels j e) = (xs', labels', e')"
        by (simp add: partition_pass.simps[of i j e xs labels])
      from True lab jn have lj: "lab (xs ! j) = i" by simp
      have ej: "e \<le> j"
      proof (rule ccontr)
        assume "\<not> e \<le> j"
        then have "min j e \<le> j \<and> j < max j e" by (simp add: min_def max_def)
        with pre lj show False by blast
      qed
      note sw = swap_props[OF ej jn]
      have lab': "swap labels j e = map lab (swap xs j e)" using lab sw(3)[of lab] by simp
      have en': "Suc e \<le> length (swap xs j e)" using ej jn sw(2) by simp
      have pre': "\<forall>k. min (Suc j) (Suc e) \<le> k \<and> k < max (Suc j) (Suc e) \<longrightarrow> lab (swap xs j e ! k) \<noteq> i"
      proof (intro allI impI)
        fix k assume "min (Suc j) (Suc e) \<le> k \<and> k < max (Suc j) (Suc e)"
        with ej have k: "Suc e \<le> k" "k \<le> j" by (auto simp: min_def max_def split: if_splits)
        show "lab (swap xs j e ! k) \<noteq> i"
        proof (cases "k = j")
          case True
          with k have "e < j" by simp
          then have "min j e \<le> e \<and> e < max j e" by (simp add: min_def max_def)
          with pre have "lab (xs ! e) \<noteq> i" by blast
          with True sw(6) show ?thesis by simp
        next
          case False
          with k have "min j e \<le> k \<and> k < max j e" by (auto simp: min_def max_def)
          with pre have "lab (xs ! k) \<noteq> i" by blast
          moreover from k False have "swap xs j e ! k = xs ! k" by (intro sw(7)) auto
          ultimately show ?thesis by simp
        qed
      qed
      from "1.IH"(1)[OF jn True lab' en' pre' r]
      have ih: "mset xs' = mset (swap xs j e)" "take (Suc e) xs' = take (Suc e) (swap xs j e)"
        "Suc e \<le> e'" "e' \<le> length (swap xs j e)" "labels' = map lab xs'"
        "\<forall>k. Suc e \<le> k \<and> k < e' \<longrightarrow> lab (xs' ! k) = i"
        "\<forall>k. e' \<le> k \<and> k < length (swap xs j e) \<longrightarrow> lab (xs' ! k) \<noteq> i"
        by simp_all
      have len: "length xs' = length xs" using ih(1) sw(1) by (metis size_mset)
      have "take e (take (Suc e) xs') = take e (take (Suc e) (swap xs j e))"
        using ih(2) by simp
      then have "take e xs' = take e (swap xs j e)" by (simp add: min.absorb1)
      with sw(4) have t: "take e xs' = take e xs" by simp
      have "xs' ! e = swap xs j e ! e"
        using ih(2) by (metis lessI nth_take)
      with sw(5) lj have e_lab: "lab (xs' ! e) = i" by simp
      have "lab (xs' ! k) = i" if "e \<le> k \<and> k < e'" for k
        using that ih(6) e_lab by (cases "k = e") auto
      then have "\<forall>k. e \<le> k \<and> k < e' \<longrightarrow> lab (xs' ! k) = i" by blast
      with ih sw(1,2) t show ?thesis by simp
    qed
  qed
qed


lemma mset_drop_of_take:
  assumes "mset xs' = mset xs" "take n xs' = take n xs"
  shows "mset (drop n xs') = mset (drop n xs)"
proof -
  have "mset (take n xs') + mset (drop n xs') = mset (take n xs) + mset (drop n xs)"
    using assms(1) by (metis append_take_drop_id mset_append)
  with assms(2) show ?thesis by simp
qed

lemma cluster_children_props:
  "(\<And>nd sl g nd' sl' g'. rec nd sl g = Inr (nd', sl', g') \<Longrightarrow> mset sl' = mset sl \<and> Q nd sl nd') \<Longrightarrow>
   labels = map lab xs \<Longrightarrow> start \<le> length xs \<Longrightarrow>
   (\<forall>x \<in> set (take start xs). lab x < i) \<Longrightarrow>
   (\<forall>x \<in> set (drop start xs). i \<le> lab x \<and> int (lab x) < branching' ix) \<Longrightarrow>
   sorted (map lab (take start xs)) \<Longrightarrow>
   cluster_children rec ix centers i start xs labels cs g = Inr (cs', xs', g') \<Longrightarrow>
   mset xs' = mset xs \<and> sorted (map lab xs') \<and> take start xs' = take start xs \<and>
   (\<exists>sls news. cs' = cs @ news \<and> length sls = nat (branching' ix) - i \<and>
      length news = nat (branching' ix) - i \<and> mset (concat sls) = mset (drop start xs) \<and>
      (\<forall>k < nat (branching' ix) - i.
         (\<forall>x \<in> set (sls ! k). lab x = i + k) \<and>
         Q (Node (Some (points' ix ! (centers ! (i + k)))) [] []) (sls ! k) (news ! k)))"
proof (induction rec ix centers i start xs labels cs g rule: cluster_children.induct)
  case (1 rec ix centers i start xs labels cs g)
  note rec_ok = "1.prems"(1) and lab = "1.prems"(2) and sn = "1.prems"(3) and lo = "1.prems"(4)
    and hi = "1.prems"(5) and srt = "1.prems"(6) and run = "1.prems"(7)
  let ?B = "nat (branching' ix)"
  show ?case
  proof (cases "int i < branching' ix")
    case False
    with run have r: "cs' = cs" "xs' = xs"
      by (simp_all add: cluster_children.simps[of rec ix centers i start xs labels cs g])
    have d: "drop start xs = []"
    proof (cases "drop start xs")
      case Nil
      then show ?thesis .
    next
      case (Cons x l)
      then have "x \<in> set (drop start xs)" by simp
      with hi have "i \<le> lab x" "int (lab x) < branching' ix" by auto
      with False show ?thesis by linarith
    qed
    then have t: "take start xs = xs" by (metis append_Nil2 append_take_drop_id)
    from False have b: "?B - i = 0" by simp
    from r d t srt b show ?thesis by simp
  next
    case True
    obtain xs1 labels1 e where pp: "partition_pass i 0 start xs labels = (xs1, labels1, e)"
      by (cases "partition_pass i 0 start xs labels") auto
    have pre: "\<forall>k. min 0 start \<le> k \<and> k < max 0 start \<longrightarrow> lab (xs ! k) \<noteq> i"
    proof (intro allI impI)
      fix k assume "min 0 start \<le> k \<and> k < max 0 start"
      then have "k < start" by simp
      with sn have "xs ! k \<in> set (take start xs)" by (metis in_set_conv_nth length_take min.absorb2 nth_take)
      with lo show "lab (xs ! k) \<noteq> i" by fastforce
    qed
    from partition_pass_props[OF lab sn pre pp]
    have p: "mset xs1 = mset xs" "take start xs1 = take start xs" "start \<le> e" "e \<le> length xs"
      "labels1 = map lab xs1" "\<forall>k. start \<le> k \<and> k < e \<longrightarrow> lab (xs1 ! k) = i"
      "\<forall>k. e \<le> k \<and> k < length xs \<longrightarrow> lab (xs1 ! k) \<noteq> i"
      by simp_all
    have len1: "length xs1 = length xs" using p(1) by (metis size_mset)
    let ?slice = "take (e - start) (drop start xs1)"
    let ?nd0 = "Node (Some (points' ix ! (centers ! i))) [] []"
    from True pp run obtain child slice' g1 where
      rc: "rec ?nd0 ?slice g = Inr (child, slice', g1)"
      and rest: "cluster_children rec ix centers (Suc i) e (take start xs1 @ slice' @ drop e xs1)
                   labels1 (cs @ [child]) g1 = Inr (cs', xs', g')"
      by (auto simp: cluster_children.simps[of rec ix centers i start xs labels cs g] split: sum.splits)
    from rec_ok[OF rc] have sl: "mset slice' = mset ?slice" and q: "Q ?nd0 ?slice child" by simp_all
    have lsl: "length slice' = e - start"
      using sl p(3,4) len1 by (metis size_mset length_take length_drop min.absorb2 diff_le_mono)
    let ?xs2 = "take start xs1 @ slice' @ drop e xs1"
    have ds: "drop start xs1 = ?slice @ drop e xs1"
    proof -
      have "drop start xs1 = ?slice @ drop (e - start) (drop start xs1)"
        by (rule append_take_drop_id[symmetric])
      moreover have "drop (e - start) (drop start xs1) = drop e xs1" using p(3) by simp
      ultimately show ?thesis by simp
    qed
    have split1: "xs1 = take start xs1 @ ?slice @ drop e xs1"
      using ds by (metis append_take_drop_id)
    have slice_lab: "\<forall>x \<in> set ?slice. lab x = i"
    proof
      fix x assume "x \<in> set ?slice"
      then obtain k where k: "k < length ?slice" "?slice ! k = x" by (auto simp: in_set_conv_nth)
      then have "k < e - start" by simp
      with k p(4) len1 have "x = xs1 ! (start + k)" by simp
      moreover from \<open>k < e - start\<close> have "start \<le> start + k \<and> start + k < e" by simp
      ultimately show "lab x = i" using p(6) by blast
    qed
    then have slice'_lab: "\<forall>x \<in> set slice'. lab x = i"
      using sl by (metis mset_eq_setD)
    have rest_lab: "\<forall>x \<in> set (drop e xs1). Suc i \<le> lab x \<and> int (lab x) < branching' ix"
    proof
      fix x assume x: "x \<in> set (drop e xs1)"
      then obtain k where k: "k < length (drop e xs1)" "drop e xs1 ! k = x" by (auto simp: in_set_conv_nth)
      with p(4) len1 have xk: "x = xs1 ! (e + k)" "e + k < length xs" by simp_all
      with p(7) have ne: "lab x \<noteq> i" by simp
      from x have "x \<in> set (drop start xs1)" using p(3) by (metis set_drop_subset_set_drop subsetD)
      moreover have "mset (drop start xs1) = mset (drop start xs)"
        by (rule mset_drop_of_take[OF p(1,2)])
      ultimately have "x \<in> set (drop start xs)" by (metis mset_eq_setD)
      with hi ne show "Suc i \<le> lab x \<and> int (lab x) < branching' ix" by fastforce
    qed
    have mset2: "mset ?xs2 = mset xs"
    proof -
      have "mset ?xs2 = mset (take start xs1 @ ?slice @ drop e xs1)" using sl by simp
      with split1 p(1) show ?thesis by simp
    qed
    have take_e: "take e ?xs2 = take start xs1 @ slice'"
      using lsl p(3,4) len1 by simp
    have drop_e: "drop e ?xs2 = drop e xs1"
      using lsl p(3,4) len1 by simp
    have ms': "map lab slice' = replicate (e - start) i"
      using slice'_lab lsl by (intro replicate_eqI) auto
    have lab2: "labels1 = map lab ?xs2"
    proof -
      note ms'
      moreover have "map lab ?slice = replicate (e - start) i"
        using slice_lab p(3,4) len1 by (intro replicate_eqI) auto
      ultimately have "map lab ?xs2 = map lab (take start xs1 @ ?slice @ drop e xs1)" by simp
      with split1 p(5) show ?thesis by simp
    qed
    have en2: "e \<le> length ?xs2" using lsl p(3,4) len1 by simp
    have lo2: "\<forall>x \<in> set (take e ?xs2). lab x < Suc i"
      unfolding take_e using lo p(2) slice'_lab by fastforce
    have hi2: "\<forall>x \<in> set (drop e ?xs2). Suc i \<le> lab x \<and> int (lab x) < branching' ix"
      unfolding drop_e by (rule rest_lab)
    have srt2: "sorted (map lab (take e ?xs2))"
      unfolding take_e using srt lo p(2) slice'_lab ms'
      by (auto simp: sorted_append less_imp_le)
    have ihx: "mset xs' = mset ?xs2 \<and> sorted (map lab xs') \<and> take e xs' = take e ?xs2 \<and>
      (\<exists>sls news. cs' = (cs @ [child]) @ news \<and> length sls = ?B - Suc i \<and>
        length news = ?B - Suc i \<and> mset (concat sls) = mset (drop e ?xs2) \<and>
        (\<forall>k < ?B - Suc i.
           (\<forall>x \<in> set (sls ! k). lab x = Suc i + k) \<and>
           Q (Node (Some (points' ix ! (centers ! (Suc i + k)))) [] []) (sls ! k) (news ! k)))"
      by (rule "1.IH"[OF True pp[symmetric] refl rc refl refl _ lab2 en2 lo2 hi2 srt2 rest])
         (erule rec_ok)
    then have ih: "mset xs' = mset ?xs2" "sorted (map lab xs')" "take e xs' = take e ?xs2"
      and ex: "\<exists>sls news. cs' = (cs @ [child]) @ news \<and> length sls = ?B - Suc i \<and>
        length news = ?B - Suc i \<and> mset (concat sls) = mset (drop e ?xs2) \<and>
        (\<forall>k < ?B - Suc i.
           (\<forall>x \<in> set (sls ! k). lab x = Suc i + k) \<and>
           Q (Node (Some (points' ix ! (centers ! (Suc i + k)))) [] []) (sls ! k) (news ! k))"
      by blast+
    from ex obtain sls news where sn': "cs' = (cs @ [child]) @ news" "length sls = ?B - Suc i"
      "length news = ?B - Suc i" "mset (concat sls) = mset (drop e ?xs2)"
      and all: "\<forall>k < ?B - Suc i.
           (\<forall>x \<in> set (sls ! k). lab x = Suc i + k) \<and>
           Q (Node (Some (points' ix ! (centers ! (Suc i + k)))) [] []) (sls ! k) (news ! k)"
      by blast
    have bi: "?B - i = Suc (?B - Suc i)" using True by simp
    have ts: "take start xs' = take start xs"
    proof -
      have tt: "take start (take e ys) = take start ys" for ys :: "nat list"
        using p(3) by (simp add: min.absorb1)
      have "take start xs' = take start (take e xs')" by (rule tt[symmetric])
      also have "\<dots> = take start (take e ?xs2)" by (simp only: ih(3))
      also have "\<dots> = take start ?xs2" by (rule tt)
      also have "\<dots> = take start xs1" using sn len1 by simp
      finally show ?thesis using p(2) by simp
    qed
    have c1: "mset (concat sls) = mset (drop e xs1)" using sn'(4) unfolding drop_e .
    have cover: "mset (concat (?slice # sls)) = mset (drop start xs)"
    proof -
      have "mset (concat (?slice # sls)) = mset (?slice @ drop e xs1)"
        using c1 by simp
      also have "\<dots> = mset (drop start xs1)" using ds by simp
      also have "\<dots> = mset (drop start xs)" by (rule mset_drop_of_take[OF p(1,2)])
      finally show ?thesis .
    qed
    have all': "\<forall>k < ?B - i.
           (\<forall>x \<in> set ((?slice # sls) ! k). lab x = i + k) \<and>
           Q (Node (Some (points' ix ! (centers ! (i + k)))) [] []) ((?slice # sls) ! k) ((child # news) ! k)"
    proof (intro allI impI)
      fix k assume k: "k < ?B - i"
      show "(\<forall>x \<in> set ((?slice # sls) ! k). lab x = i + k) \<and>
           Q (Node (Some (points' ix ! (centers ! (i + k)))) [] []) ((?slice # sls) ! k) ((child # news) ! k)"
      proof (cases k)
        case 0
        with slice_lab q show ?thesis by simp
      next
        case (Suc k')
        with k bi have "k' < ?B - Suc i" by simp
        with all Suc show ?thesis by simp
      qed
    qed
    have "cs' = cs @ (child # news) \<and> length (?slice # sls) = ?B - i \<and>
      length (child # news) = ?B - i \<and> mset (concat (?slice # sls)) = mset (drop start xs) \<and>
      (\<forall>k < ?B - i.
         (\<forall>x \<in> set ((?slice # sls) ! k). lab x = i + k) \<and>
         Q (Node (Some (points' ix ! (centers ! (i + k)))) [] []) ((?slice # sls) ! k) ((child # news) ! k))"
      using sn'(1,2,3) bi cover all' by simp
    then have "\<exists>sls news. cs' = cs @ news \<and> length sls = ?B - i \<and>
      length news = ?B - i \<and> mset (concat sls) = mset (drop start xs) \<and>
      (\<forall>k < ?B - i.
         (\<forall>x \<in> set (sls ! k). lab x = i + k) \<and>
         Q (Node (Some (points' ix ! (centers ! (i + k)))) [] []) (sls ! k) (news ! k))"
      by blast
    with ih(1,2) mset2 ts show ?thesis by simp
  qed
qed

section \<open>What a clustering builds\<close>

text \<open>
  The indices that a search can reach in a tree are those of the points lists of its
  leaves, the nodes without children (\<open>findNN\<close> never reads the points of an inner node).
\<close>

fun leaf_indices :: "'p Node \<Rightarrow> nat list" where
  "leaf_indices (Node pv cs ps) = (if cs = [] then map index ps else concat (map leaf_indices cs))"

text \<open>Every node with children has exactly \<open>B\<close> of them.\<close>

fun branching_ok :: "int \<Rightarrow> 'p Node \<Rightarrow> bool" where
  "branching_ok B (Node pv cs ps) \<longleftrightarrow>
     (cs = [] \<or> int (length cs) = B) \<and> (\<forall>c \<in> set cs. branching_ok B c)"

text \<open>
  Every point of a leaf is a row of the dataset with its own index, and every child has
  a pivot.
\<close>

fun points_ok :: "'p list \<Rightarrow> 'p Node \<Rightarrow> bool" where
  "points_ok pts (Node pv cs ps) \<longleftrightarrow>
     (cs = [] \<longrightarrow> (\<forall>p \<in> set ps. index p < length pts \<and> point p = pts ! index p)) \<and>
     (\<forall>c \<in> set cs. pivot c \<noteq> None \<and> points_ok pts c)"

lemma label_of_less: "centers \<noteq> [] \<Longrightarrow> label_of ix centers i < length centers"
proof -
  assume c: "centers \<noteq> []"
  have "fst s < n \<Longrightarrow> \<forall>j \<in> set js. j < n \<Longrightarrow>
        fst (fold (\<lambda>j (label, dist).
                  if dist > distance' ix (points' ix ! i) (points' ix ! (centers ! j))
                  then (j, distance' ix (points' ix ! i) (points' ix ! (centers ! j)))
                  else (label, dist)) js s) < n" for js n and s :: "nat \<times> 'b"
    by (induction js arbitrary: s) (auto split: prod.splits)
  from this[of "(0, distance' ix (points' ix ! i) (points' ix ! (centers ! 0)))" "length centers" "[1..<length centers]"] c
  show ?thesis by (simp add: label_of_def)
qed

lemma make_leaf_Inr:
  "make_leaf ix nd xs = Inr leaf \<longleftrightarrow>
     (\<forall>i \<in> set xs. i < length (points' ix)) \<and>
     leaf = Node (pivot nd) [] (map (\<lambda>i. PointInfo i (points' ix ! i)) xs)"
  by (auto simp: make_leaf_def not_le[symmetric])

lemma computeLabels_Inr:
  "computeLabels ix xs centers = Inr labels \<Longrightarrow>
   labels = map (label_of ix centers) xs \<and> (xs \<noteq> [] \<longrightarrow> centers \<noteq> []) \<and>
   (\<forall>i \<in> set xs. i < length (points' ix))"
  by (auto simp: computeLabels_def split: if_splits)

text \<open>What a returning call of \<open>computeClustering\<close> did: it made a leaf, or it split the node.\<close>

lemma computeClustering_cases:
  assumes "computeClustering (Suc fuel) ix nd xs g = Inr (nd', xs', g')"
  shows "(\<exists>leaf. make_leaf ix nd xs = Inr leaf \<and> nd' = leaf \<and> xs' = xs \<and>
            (int (length xs) < leaf_size' ix \<or>
             int (length (fst (chooseCenters' ix (branching' ix) xs g))) < branching' ix)) \<or>
         (\<not> int (length xs) < leaf_size' ix \<and> 0 \<le> branching' ix \<and>
          int (length (fst (chooseCenters' ix (branching' ix) xs g))) = branching' ix \<and>
          (\<forall>c \<in> set (fst (chooseCenters' ix (branching' ix) xs g)). c < length (points' ix)) \<and>
          (\<exists>labels cs.
             computeLabels ix xs (fst (chooseCenters' ix (branching' ix) xs g)) = Inr labels \<and>
             cluster_children (computeClustering fuel ix) ix (fst (chooseCenters' ix (branching' ix) xs g))
               0 0 xs labels [] (snd (chooseCenters' ix (branching' ix) xs g)) = Inr (cs, xs', g') \<and>
             nd' = Node (pivot nd) cs (points nd)))"
proof (cases "int (length xs) < leaf_size' ix")
  case True
  with assms show ?thesis by (auto split: sum.splits)
next
  case False
  obtain centers g1 where ch: "chooseCenters' ix (branching' ix) xs g = (centers, g1)"
    by (cases "chooseCenters' ix (branching' ix) xs g") auto
  show ?thesis
  proof (cases "int (length centers) < branching' ix")
    case True
    with False ch assms show ?thesis by (auto split: sum.splits if_splits)
  next
    case nl: False
    with False ch assms have "0 \<le> branching' ix" "\<not> nat (branching' ix) < length centers"
      "\<not> (\<exists>c \<in> set centers. length (points' ix) \<le> c)"
      by (auto split: if_splits)
    moreover with nl have "int (length centers) = branching' ix" by linarith
    moreover from False ch assms nl calculation obtain labels cs where
      "computeLabels ix xs centers = Inr labels"
      "cluster_children (computeClustering fuel ix) ix centers 0 0 xs labels [] g1 = Inr (cs, xs', g')"
      "nd' = Node (pivot nd) cs (points nd)"
      by (auto split: sum.splits if_splits)
    ultimately show ?thesis using False ch by (simp add: not_le)
  qed
qed


lemma concat_leaf_mset:
  "length sls = length news \<Longrightarrow> \<forall>k < length news. mset (leaf_indices (news ! k)) = mset (sls ! k) \<Longrightarrow>
   mset (concat (map leaf_indices news)) = mset (concat sls)"
proof (induction news arbitrary: sls)
  case Nil
  then show ?case by simp
next
  case (Cons c news)
  then obtain sl sls' where sls: "sls = sl # sls'" by (cases sls) auto
  with Cons.prems have "length sls' = length news"
    "\<forall>k < length news. mset (leaf_indices (news ! k)) = mset (sls' ! k)"
    "mset (leaf_indices c) = mset sl"
    by fastforce+
  with Cons.IH[of sls'] sls show ?case by simp
qed

definition cluster_ok ::
  "('p, 'd, 'g) HierarchicalClusteringIndex \<Rightarrow> 'p Node \<Rightarrow> nat list \<Rightarrow> 'p Node \<Rightarrow> bool" where
  "cluster_ok ix nd xs nd' \<longleftrightarrow>
     mset (leaf_indices nd') = mset xs \<and> branching_ok (branching' ix) nd' \<and>
     points_ok (points' ix) nd' \<and> pivot nd' = pivot nd \<and>
     (xs = [] \<and> 0 < leaf_size' ix \<longrightarrow> nd' = Node (pivot nd) [] [])"

lemma computeClustering_props:
  "0 < branching' ix \<Longrightarrow> computeClustering fuel ix nd xs g = Inr (nd', xs', g') \<Longrightarrow>
   mset xs' = mset xs \<and> cluster_ok ix nd xs nd'"
proof (induction fuel arbitrary: nd xs g nd' xs' g')
  case 0
  then show ?case by simp
next
  case (Suc fuel)
  let ?B = "branching' ix"
  let ?centers = "fst (chooseCenters' ix ?B xs g)"
  let ?lab = "label_of ix ?centers"
  from computeClustering_cases[OF Suc.prems(2)]
  consider (leaf) leaf where "make_leaf ix nd xs = Inr leaf" "nd' = leaf" "xs' = xs"
    | (split) labels cs where "\<not> int (length xs) < leaf_size' ix" "int (length ?centers) = ?B"
        "\<forall>c \<in> set ?centers. c < length (points' ix)"
        "computeLabels ix xs ?centers = Inr labels"
        "cluster_children (computeClustering fuel ix) ix ?centers 0 0 xs labels []
                 (snd (chooseCenters' ix ?B xs g)) = Inr (cs, xs', g')"
        "nd' = Node (pivot nd) cs (points nd)"
    by blast
  then show ?case
  proof cases
    case leaf
    then show ?thesis by (auto simp: make_leaf_Inr cluster_ok_def o_def)
  next
    case split
    note nl = split(1) and len = split(2) and cin = split(3) and cl = split(4) and cc = split(5)
      and nd' = split(6)
    from computeLabels_Inr[OF cl] have lab: "labels = map ?lab xs" and ne: "xs \<noteq> [] \<longrightarrow> ?centers \<noteq> []"
      by simp_all
    have rec_ok: "mset sl' = mset sl \<and> cluster_ok ix n sl n'"
      if "computeClustering fuel ix n sl h = Inr (n', sl', h')" for n sl h n' sl' h'
      using Suc.IH[OF Suc.prems(1) that] .
    have hi: "\<forall>x \<in> set (drop 0 xs). 0 \<le> ?lab x \<and> int (?lab x) < ?B"
    proof
      fix x assume "x \<in> set (drop 0 xs)"
      with ne have "?centers \<noteq> []" by auto
      from label_of_less[OF this, of ix x] len show "0 \<le> ?lab x \<and> int (?lab x) < ?B" by simp
    qed
    have "mset xs' = mset xs \<and> sorted (map ?lab xs') \<and> take 0 xs' = take 0 xs \<and>
      (\<exists>sls news. cs = [] @ news \<and> length sls = nat ?B - 0 \<and> length news = nat ?B - 0 \<and>
         mset (concat sls) = mset (drop 0 xs) \<and>
         (\<forall>k < nat ?B - 0. (\<forall>x \<in> set (sls ! k). ?lab x = 0 + k) \<and>
            cluster_ok ix (Node (Some (points' ix ! (?centers ! (0 + k)))) [] []) (sls ! k) (news ! k)))"
      by (rule cluster_children_props[of "computeClustering fuel ix" "cluster_ok ix", OF _ lab _ _ hi _ cc])
         (erule rec_ok, simp_all)
    then obtain sls where m: "mset xs' = mset xs" and sls: "length sls = nat ?B" "length cs = nat ?B"
      "mset (concat sls) = mset xs"
      and all: "\<forall>k < nat ?B. cluster_ok ix (Node (Some (points' ix ! (?centers ! k))) [] []) (sls ! k) (cs ! k)"
      by auto
    from sls(2) Suc.prems(1) have cne: "cs \<noteq> []" by auto
    have 1: "mset (leaf_indices nd') = mset xs"
    proof -
      have "mset (concat (map leaf_indices cs)) = mset (concat sls)"
        by (rule concat_leaf_mset) (use sls all in \<open>auto simp: cluster_ok_def\<close>)
      with nd' cne sls(3) show ?thesis by simp
    qed
    have 2: "branching_ok ?B nd'"
      using nd' sls(2) Suc.prems(1) all by (auto simp: cluster_ok_def in_set_conv_nth)
    have 3: "points_ok (points' ix) nd'"
      using nd' cne sls(2) all by (auto simp: cluster_ok_def in_set_conv_nth)
    from nl have 4: "\<not> (xs = [] \<and> 0 < leaf_size' ix)" by auto
    from m 1 2 3 4 nd' show ?thesis unfolding cluster_ok_def by auto
  qed
qed

section \<open>buildIndex and addPoints\<close>

text \<open>
  The loop of \<open>buildIndex\<close> (lines 186-192): for each tree the array \<open>indices\<close> is
  reset to \<open>0, 1, ..., size - 1\<close> and a new, value-initialised root is clustered.
\<close>

fun build_trees ::
  "nat \<Rightarrow> ('p, 'd::linorder, 'g) HierarchicalClusteringIndex \<Rightarrow> nat list \<Rightarrow> 'g \<Rightarrow>
   error + 'p Node list \<times> 'g" where
  "build_trees fuel ix [] g = Inr ([], g)"
| "build_trees fuel ix (i # rest) g =
     (case computeClustering fuel ix (Node None [] []) [0..<length (points' ix)] g of
        Inl err \<Rightarrow> Inl err
      | Inr (tree, indices, g') \<Rightarrow>
          (case build_trees fuel ix rest g' of
             Inl err \<Rightarrow> Inl err
           | Inr (roots, g'') \<Rightarrow> Inr (tree # roots, g'')))"

text \<open>
  \<open>buildIndex\<close> (lines 179-194). \<open>resize\<close> throws for a negative number of trees;
  afterwards the forest is exactly the roots built.
\<close>

definition buildIndex ::
  "nat \<Rightarrow> ('p, 'd::linorder, 'g) HierarchicalClusteringIndex \<Rightarrow>
   error + ('p, 'd, 'g) HierarchicalClusteringIndex" where
  "buildIndex fuel ix =
     (if branching' ix < 2 then Inl (FLANNException ''Branching factor must be at least 2'')
      else if trees' ix < 0 then Inl LengthError
      else
        (case build_trees fuel ix [0..<nat (trees' ix)] (random' ix) of
           Inl err \<Rightarrow> Inl err
         | Inr (roots, g) \<Rightarrow>
             Inr (ix\<lparr>tree_roots' := roots, random' := g, size_at_build' := length (points' ix)\<rparr>)))"

text \<open>
  \<open>addPointToTree\<close> (lines 506-540). At a leaf the point is appended, and once the leaf
  holds at least \<open>size_t(branching)\<close> points it is clustered again on the indices of
  its points (a negative \<open>branching\<close> converts to a bound no leaf reaches). At an inner
  node the point goes to the first child whose pivot is nearest, among the first
  \<open>branching\<close> children (the distance is taken from the pivot to the point); the loop
  over them runs out of range for a negative \<open>branching\<close> or too few children.
\<close>

function addPointToTree ::
  "nat \<Rightarrow> ('p, 'd::linorder, 'g) HierarchicalClusteringIndex \<Rightarrow> 'p Node \<Rightarrow> nat \<Rightarrow> 'g \<Rightarrow>
   error + 'p Node \<times> 'g" where
  "addPointToTree fuel ix nd idx g =
     (if length (points' ix) \<le> idx then Inl UndefinedBehaviour
      else if childs nd = [] then
        (if 0 \<le> branching' ix \<and> branching' ix \<le> int (length (points nd)) + 1 then
           (case computeClustering fuel ix
                   (Node (pivot nd) [] (points nd @ [PointInfo idx (points' ix ! idx)]))
                   (map index (points nd) @ [idx]) g of
              Inl err \<Rightarrow> Inl err
            | Inr (nd', indices, g') \<Rightarrow> Inr (nd', g'))
         else Inr (Node (pivot nd) [] (points nd @ [PointInfo idx (points' ix ! idx)]), g))
      else if branching' ix < 0 \<or> length (childs nd) < nat (branching' ix) then Inl UndefinedBehaviour
      else
        (case domain_distances (\<lambda>point center. distance' ix center point) (points' ix ! idx)
                (take (max 1 (nat (branching' ix))) (childs nd)) of
           Inl err \<Rightarrow> Inl err
         | Inr ds \<Rightarrow>
             (case addPointToTree fuel ix (childs nd ! best_index ds (nat (branching' ix))) idx g of
                Inl err \<Rightarrow> Inl err
              | Inr (child, g') \<Rightarrow>
                  Inr (Node (pivot nd) ((childs nd)[best_index ds (nat (branching' ix)) := child])
                         (points nd), g'))))"
  by pat_completeness auto
termination
  apply (relation "measure (\<lambda>(fuel, ix, nd, idx, g). size nd)")
   apply simp
  subgoal for fuel ix nd idx g ds
    using best_index_less[of "nat (branching' ix)" ds]
      size_nth_childs[of "best_index ds (nat (branching' ix))" "childs nd"]
    by (cases nd; cases "nat (branching' ix) = 0") (auto simp: best_index_def)
  done

declare addPointToTree.simps [simp del]

text \<open>The loops of \<open>addPoints\<close> (lines 209-213): over the trees, and over the new points.\<close>

fun add_to_trees ::
  "nat \<Rightarrow> ('p, 'd::linorder, 'g) HierarchicalClusteringIndex \<Rightarrow> nat \<Rightarrow> nat list \<Rightarrow> 'p Node list \<Rightarrow> 'g \<Rightarrow>
   error + 'p Node list \<times> 'g" where
  "add_to_trees fuel ix idx [] roots g = Inr (roots, g)"
| "add_to_trees fuel ix idx (j # rest) roots g =
     (if j < length roots then
        (case addPointToTree fuel ix (roots ! j) idx g of
           Inl err \<Rightarrow> Inl err
         | Inr (tree, g') \<Rightarrow> add_to_trees fuel ix idx rest (roots[j := tree]) g')
      else Inl UndefinedBehaviour)"

fun add_new_points ::
  "nat \<Rightarrow> ('p, 'd::linorder, 'g) HierarchicalClusteringIndex \<Rightarrow> nat \<Rightarrow> nat list \<Rightarrow> 'p Node list \<Rightarrow> 'g \<Rightarrow>
   error + 'p Node list \<times> 'g" where
  "add_new_points fuel ix old_size [] roots g = Inr (roots, g)"
| "add_new_points fuel ix old_size (i # rest) roots g =
     (case add_to_trees fuel ix (old_size + i) [0..<nat (trees' ix)] roots g of
        Inl err \<Rightarrow> Inl err
      | Inr (roots', g') \<Rightarrow> add_new_points fuel ix old_size rest roots' g')"

text \<open>
  Modelled from the spec: \<open>extendDataset\<close> belongs to the base class \<open>NNIndex\<close>, which is
  not part of the sources. The spec has it extend the dataset view by the new points,
  which take the indices from the old size on.
\<close>

definition extendDataset ::
  "('p, 'd, 'g) HierarchicalClusteringIndex \<Rightarrow> 'p list \<Rightarrow> ('p, 'd, 'g) HierarchicalClusteringIndex" where
  "extendDataset ix new_points = ix\<lparr>points' := points' ix @ new_points\<rparr>"

subsection \<open>The single-precision arithmetic of the rebuild test\<close>

text \<open>
  The threshold of \<open>addPoints\<close> is a \<open>float\<close>, so the test
  \<^verbatim>\<open>size_at_build_*rebuild_threshold<size_\<close> (line 204) converts both sizes to \<open>float\<close>
  and multiplies and compares in single precision. A \<open>float\<close> is taken to be an
  IEEE 754 binary32 number, given by its 32 bits, and every operation to round to the
  nearest representable number, ties going to the even significand (the default rounding
  mode), without intermediate results of higher precision.

  The value of a \<open>float\<close> is \<open>Finite m e\<close>, the number \<open>m * 2^e\<close>, an infinity with its
  sign (\<open>True\<close> for the negative one), or not a number. The sign of a zero is not kept:
  no operation used here tells the two zeros apart.
\<close>

datatype fvalue = Finite int int | Infinity bool | NaN

text \<open>Bit 31 is the sign, bits 30 to 23 the biased exponent, bits 22 to 0 the fraction.\<close>

definition float_value :: "32 word \<Rightarrow> fvalue" where
  "float_value w =
     (if unat (take_bit 8 (drop_bit 23 w)) = 255
      then (if take_bit 23 w = 0 then Infinity (bit w 31) else NaN)
      else if unat (take_bit 8 (drop_bit 23 w)) = 0
      then Finite ((if bit w 31 then - 1 else 1) * uint (take_bit 23 w)) (- 149)
      else Finite ((if bit w 31 then - 1 else 1) * (2 ^ 23 + uint (take_bit 23 w)))
             (int (unat (take_bit 8 (drop_bit 23 w))) - 150))"

text \<open>The position of the leading bit of a positive number.\<close>

fun log2_floor :: "nat \<Rightarrow> nat" where
  "log2_floor n = (if n < 2 then 0 else Suc (log2_floor (n div 2)))"

declare log2_floor.simps [simp del]

text \<open>
  Rounding the exact number \<open>m * 2^e\<close> to a \<open>float\<close>. The exponent of the last place
  of the result leaves 24 bits to a normal number and is \<open>-149\<close> for a subnormal one;
  \<open>round_even a k\<close> drops the last \<open>k\<close> bits of \<open>a\<close>, rounding to nearest and a tie to
  even; a result of \<open>2^128\<close> or more is an infinity.
\<close>

definition round_even :: "int \<Rightarrow> nat \<Rightarrow> int" where
  "round_even a k =
     (if 2 * (a mod 2 ^ k) < 2 ^ k \<or> 2 * (a mod 2 ^ k) = 2 ^ k \<and> even (a div 2 ^ k)
      then a div 2 ^ k else a div 2 ^ k + 1)"

definition ulp_exponent :: "int \<Rightarrow> int \<Rightarrow> int" where
  "ulp_exponent a e = max (int (log2_floor (nat a)) + e) (- 126) - 23"

definition float_round :: "int \<Rightarrow> int \<Rightarrow> fvalue" where
  "float_round m e =
     (if m = 0 then Finite 0 0
      else if ulp_exponent \<bar>m\<bar> e \<le> e
      then (if 128 \<le> int (log2_floor (nat \<bar>m\<bar>)) + e then Infinity (m < 0) else Finite m e)
      else if round_even \<bar>m\<bar> (nat (ulp_exponent \<bar>m\<bar> e - e)) = 0 then Finite 0 0
      else if 128 \<le> int (log2_floor (nat (round_even \<bar>m\<bar> (nat (ulp_exponent \<bar>m\<bar> e - e))))) +
                      ulp_exponent \<bar>m\<bar> e
      then Infinity (m < 0)
      else Finite ((if m < 0 then - 1 else 1) * round_even \<bar>m\<bar> (nat (ulp_exponent \<bar>m\<bar> e - e)))
             (ulp_exponent \<bar>m\<bar> e))"

text \<open>The product and the comparison \<open><\<close> of two \<open>float\<close>s.\<close>

fun float_mult :: "fvalue \<Rightarrow> fvalue \<Rightarrow> fvalue" where
  "float_mult (Finite m e) (Finite m' e') = float_round (m * m') (e + e')"
| "float_mult (Finite m e) (Infinity s) = (if m = 0 then NaN else Infinity (s \<noteq> (m < 0)))"
| "float_mult (Infinity s) (Finite m e) = (if m = 0 then NaN else Infinity (s \<noteq> (m < 0)))"
| "float_mult (Infinity s) (Infinity s') = Infinity (s \<noteq> s')"
| "float_mult NaN y = NaN"
| "float_mult x NaN = NaN"

fun float_less :: "fvalue \<Rightarrow> fvalue \<Rightarrow> bool" where
  "float_less (Finite m e) (Finite m' e') \<longleftrightarrow>
     m * 2 ^ nat (e - min e e') < m' * 2 ^ nat (e' - min e e')"
| "float_less (Finite m e) (Infinity s) \<longleftrightarrow> \<not> s"
| "float_less (Infinity s) (Finite m e) \<longleftrightarrow> s"
| "float_less (Infinity s) (Infinity s') \<longleftrightarrow> s \<and> \<not> s'"
| "float_less NaN y \<longleftrightarrow> False"
| "float_less x NaN \<longleftrightarrow> False"

text \<open>The test of line 204: \<^verbatim>\<open>rebuild_threshold>1 && size_at_build_*rebuild_threshold<size_\<close>.\<close>

definition rebuild_due :: "nat \<Rightarrow> 32 word \<Rightarrow> nat \<Rightarrow> bool" where
  "rebuild_due size_at_build rebuild_threshold n \<longleftrightarrow>
     float_less (Finite 1 0) (float_value rebuild_threshold) \<and>
     float_less (float_mult (float_round (int size_at_build) 0) (float_value rebuild_threshold))
       (float_round (int n) 0)"

lemmas float_eval =
  float_value_def float_round_def ulp_exponent_def round_even_def log2_floor.simps rebuild_due_def


lemma float_round_examples:
  "float_round 5 0 = Finite 5 0"
  "float_round 16777217 0 = Finite 8388608 1"
  "float_round 16777219 0 = Finite 8388610 1"
  "float_round (3 * 13981013) (- 23) = Finite 10485760 (- 21)"
  "float_round 33554431 103 = Infinity False"
  "float_round 3 (- 150) = Finite 2 (- 149)"
  by (simp_all add: float_eval)

text \<open>
  \<open>addPoints\<close> (lines 197-215). The assertion on the number of columns is not modelled.
  In the rebuild branch \<open>pool.free()\<close> releases the old nodes and \<open>buildIndex\<close> replaces
  every root.
\<close>

definition addPoints ::
  "nat \<Rightarrow> ('p, 'd::linorder, 'g) HierarchicalClusteringIndex \<Rightarrow> 'p list \<Rightarrow> 32 word \<Rightarrow>
   error + ('p, 'd, 'g) HierarchicalClusteringIndex" where
  "addPoints fuel ix new_points rebuild_threshold =
     (if rebuild_due (size_at_build' (extendDataset ix new_points)) rebuild_threshold
           (length (points' (extendDataset ix new_points)))
      then buildIndex fuel (extendDataset ix new_points)
      else
        (case add_new_points fuel (extendDataset ix new_points) (length (points' ix))
                [0..<length new_points] (tree_roots' (extendDataset ix new_points))
                (random' (extendDataset ix new_points)) of
           Inl err \<Rightarrow> Inl err
         | Inr (roots, g) \<Rightarrow> Inr ((extendDataset ix new_points)\<lparr>tree_roots' := roots, random' := g\<rparr>)))"

definition example_dataset :: "(int, int, unit) HierarchicalClusteringIndex" where
  "example_dataset = example_index\<lparr>tree_roots' := [], size_at_build' := 0, removed_points' := (\<lambda>i. False)\<rparr>"

lemma computeClustering_mset:
  "computeClustering fuel ix nd xs g = Inr (nd', xs', g') \<Longrightarrow> mset xs' = mset xs"
proof (induction fuel arbitrary: nd xs g nd' xs' g')
  case 0
  then show ?case by simp
next
  case (Suc fuel)
  let ?B = "branching' ix"
  let ?centers = "fst (chooseCenters' ix ?B xs g)"
  let ?lab = "label_of ix ?centers"
  from computeClustering_cases[OF Suc.prems]
  consider (leaf) "xs' = xs"
    | (split) labels cs where "int (length ?centers) = ?B"
        "computeLabels ix xs ?centers = Inr labels"
        "cluster_children (computeClustering fuel ix) ix ?centers 0 0 xs labels []
                 (snd (chooseCenters' ix ?B xs g)) = Inr (cs, xs', g')"
    by blast
  then show ?case
  proof cases
    case leaf
    then show ?thesis by simp
  next
    case split
    from computeLabels_Inr[OF split(2)] have lab: "labels = map ?lab xs" and ne: "xs \<noteq> [] \<longrightarrow> ?centers \<noteq> []"
      by simp_all
    have hi: "\<forall>x \<in> set (drop 0 xs). 0 \<le> ?lab x \<and> int (?lab x) < ?B"
    proof
      fix x assume "x \<in> set (drop 0 xs)"
      with ne have "?centers \<noteq> []" by auto
      from label_of_less[OF this, of ix x] split(1) show "0 \<le> ?lab x \<and> int (?lab x) < ?B" by simp
    qed
    have "mset xs' = mset xs \<and> sorted (map ?lab xs') \<and> take 0 xs' = take 0 xs \<and>
      (\<exists>sls news. cs = [] @ news \<and> length sls = nat ?B - 0 \<and> length news = nat ?B - 0 \<and>
         mset (concat sls) = mset (drop 0 xs) \<and>
         (\<forall>k < nat ?B - 0. (\<forall>x \<in> set (sls ! k). ?lab x = 0 + k) \<and> True))"
      by (rule cluster_children_props[of "computeClustering fuel ix" "\<lambda>n sl n'. True", OF _ lab _ _ hi _ split(3)])
         (use Suc.IH in simp_all)
    then show ?thesis by simp
  qed
qed

text \<open>
  When the node is split, the array ends grouped by label, and the child for a label that
  no index carries is made from an empty slice.
\<close>

lemma computeClustering_split:
  assumes run: "computeClustering fuel ix nd xs g = Inr (nd', xs', g')" and inner: "childs nd' \<noteq> []"
  shows "sorted (map (label_of ix (fst (chooseCenters' ix (branching' ix) xs g))) xs') \<and>
         int (length (childs nd')) = branching' ix \<and>
         (0 < leaf_size' ix \<longrightarrow>
            (\<forall>k < length (childs nd').
               (\<forall>x \<in> set xs. label_of ix (fst (chooseCenters' ix (branching' ix) xs g)) x \<noteq> k) \<longrightarrow>
               childs nd' ! k =
                 Node (Some (points' ix ! (fst (chooseCenters' ix (branching' ix) xs g) ! k))) [] []))"
proof -
  let ?B = "branching' ix"
  let ?centers = "fst (chooseCenters' ix ?B xs g)"
  let ?lab = "label_of ix ?centers"
  let ?Q = "\<lambda>n sl n'. sl = [] \<and> 0 < leaf_size' ix \<longrightarrow> n' = Node (pivot n) [] ([] :: 'a PointInfo list)"
  from run obtain fuel' where fuel: "fuel = Suc fuel'" by (cases fuel) auto
  from computeClustering_cases[OF run[unfolded fuel]] inner
  obtain labels cs where len: "int (length ?centers) = ?B" and b0: "0 \<le> ?B"
    and cl: "computeLabels ix xs ?centers = Inr labels"
    and cc: "cluster_children (computeClustering fuel' ix) ix ?centers 0 0 xs labels []
                 (snd (chooseCenters' ix ?B xs g)) = Inr (cs, xs', g')"
    and nd': "nd' = Node (pivot nd) cs (points nd)"
    by (auto simp: make_leaf_Inr)
  from computeLabels_Inr[OF cl] have lab: "labels = map ?lab xs" and ne: "xs \<noteq> [] \<longrightarrow> ?centers \<noteq> []"
    by simp_all
  have hi: "\<forall>x \<in> set (drop 0 xs). 0 \<le> ?lab x \<and> int (?lab x) < ?B"
  proof
    fix x assume "x \<in> set (drop 0 xs)"
    with ne have "?centers \<noteq> []" by auto
    from label_of_less[OF this, of ix x] len show "0 \<le> ?lab x \<and> int (?lab x) < ?B" by simp
  qed
  have rec_ok: "mset sl' = mset sl \<and> ?Q n sl n'"
    if r: "computeClustering fuel' ix n sl h = Inr (n', sl', h')" for n sl h n' sl' h'
  proof
    show "mset sl' = mset sl" by (rule computeClustering_mset[OF r])
    show "?Q n sl n'"
    proof
      assume a: "sl = [] \<and> 0 < leaf_size' ix"
      from r obtain f where "fuel' = Suc f" by (cases fuel') auto
      with r a show "n' = Node (pivot n) [] []" by (auto simp: make_leaf_def)
    qed
  qed
  have "mset xs' = mset xs \<and> sorted (map ?lab xs') \<and> take 0 xs' = take 0 xs \<and>
      (\<exists>sls news. cs = [] @ news \<and> length sls = nat ?B - 0 \<and> length news = nat ?B - 0 \<and>
         mset (concat sls) = mset (drop 0 xs) \<and>
         (\<forall>k < nat ?B - 0. (\<forall>x \<in> set (sls ! k). ?lab x = 0 + k) \<and>
            ?Q (Node (Some (points' ix ! (?centers ! (0 + k)))) [] []) (sls ! k) (news ! k)))"
    by (rule cluster_children_props[of "computeClustering fuel' ix" ?Q, OF _ lab _ _ hi _ cc])
       (erule rec_ok, simp_all)
  then obtain sls where srt: "sorted (map ?lab xs')" and sls: "length sls = nat ?B" "length cs = nat ?B"
    "mset (concat sls) = mset xs"
    and all: "\<forall>k < nat ?B. (\<forall>x \<in> set (sls ! k). ?lab x = k) \<and>
       ?Q (Node (Some (points' ix ! (?centers ! k))) [] []) (sls ! k) (cs ! k)"
    by auto
  have empty: "cs ! k = Node (Some (points' ix ! (?centers ! k))) [] []"
    if l: "0 < leaf_size' ix" and k: "k < length cs" and none: "\<forall>x \<in> set xs. ?lab x \<noteq> k" for k
  proof -
    have "sls ! k = []"
    proof (cases "sls ! k")
      case Nil
      then show ?thesis .
    next
      case (Cons x l)
      then have x: "x \<in> set (sls ! k)" by simp
      with k sls(1,2) have "x \<in> set (concat sls)" by (auto simp: in_set_conv_nth) (metis nth_mem)
      with sls(3) have "x \<in> set xs" by (metis mset_eq_setD)
      with none all k sls(2) x show ?thesis by auto
    qed
    with all k sls(2) l show ?thesis by simp
  qed
  from srt sls(2) b0 empty nd' show ?thesis by simp
qed

section \<open>The claims about building\<close>

text \<open>The example dataset clustered: the root is split, and so is its first child.\<close>

lemma example_clustering:
  "computeClustering 5 example_dataset (Node None [] []) [0, 1, 2, 3, 4] () =
     Inr (example_tree, [0, 2, 4, 3, 1], ())"
  by code_simp

lemma example_labels:
  "fst (chooseCenters' example_dataset (branching' example_dataset) [0, 1, 2, 3, 4] ()) = [0, 1]"
  "map (label_of example_dataset [0, 1]) [0, 1, 2, 3, 4] = [0, 1, 0, 1, 0]"
  by code_simp+

text \<open>
  Claim C5, amended. When \<open>computeClustering\<close> returns, the array \<open>indices\<close> is a
  permutation of what it was, and when the node was split it is grouped by label, in
  ascending order of the labels that \<open>computeLabels\<close> gives with the centers chosen.
  The order within a group is not the order of the input: see \<open>partition_not_stable\<close>.
\<close>

theorem indices_grouped_by_label:
  assumes "computeClustering fuel ix nd indices g = Inr (nd', indices', g')"
  shows "mset indices' = mset indices \<and>
         (childs nd' \<noteq> [] \<longrightarrow>
            sorted (map (label_of ix (fst (chooseCenters' ix (branching' ix) indices g))) indices'))"
  using computeClustering_mset[OF assms] computeClustering_split[OF assms] by simp

theorem indices_grouped_by_label_witness:
  "computeClustering 5 example_dataset (Node None [] []) [0, 1, 2, 3, 4] () =
     Inr (example_tree, [0, 2, 4, 3, 1], ()) \<and>
   mset [0, 2, 4, 3, 1] = mset [0, 1, 2, 3, 4 :: nat] \<and>
   childs example_tree \<noteq> [] \<and>
   sorted (map (label_of example_dataset [0, 1]) [0, 2, 4, 3, 1])"
  using indices_grouped_by_label[OF example_clustering] example_clustering example_labels(1)
  by (simp add: example_tree_def)

text \<open>
  The partition is not stable. In the example the indices 1 and 3 both get the label 1;
  the pass for the label 0 swaps index 1 (at position 1) with index 2, then index 2's
  old place with index 4, which leaves index 1 behind index 3, and there they stay.
\<close>

theorem partition_not_stable:
  "map (label_of example_dataset [0, 1]) [0, 1, 2, 3, 4] = [0, 1, 0, 1, 0] \<and>
   partition_pass 0 0 0 [0, 1, 2, 3, 4] [0, 1, 0, 1, 0] = ([0, 2, 4, 3, 1], [0, 0, 0, 1, 1], 3) \<and>
   computeClustering 5 example_dataset (Node None [] []) [0, 1, 2, 3, 4] () =
     Inr (example_tree, [0, 2, 4, 3, 1], ()) \<and>
   filter (\<lambda>i. label_of example_dataset [0, 1] i = 1) [0, 2, 4, 3, 1] = [3, 1] \<and>
   filter (\<lambda>i. label_of example_dataset [0, 1] i = 1) [0, 1, 2, 3, 4] = [1, 3]"
proof -
  have "partition_pass 0 0 0 [0, 1, 2, 3, 4] [0, 1, 0, 1, 0] = ([0, 2, 4, 3, 1], [0, 0, 0, 1, 1], 3)"
    by code_simp
  moreover have "filter (\<lambda>i. label_of example_dataset [0, 1] i = 1) [0, 2, 4, 3, 1] = [3, 1]"
    by code_simp
  moreover have "filter (\<lambda>i. label_of example_dataset [0, 1] i = 1) [0, 1, 2, 3, 4] = [1, 3]"
    by code_simp
  ultimately show ?thesis using example_clustering example_labels(2) by simp
qed

lemma build_trees_props:
  "0 < branching' ix \<Longrightarrow> build_trees fuel ix js g = Inr (roots, g') \<Longrightarrow>
   length roots = length js \<and>
   (\<forall>tree \<in> set roots. mset (leaf_indices tree) = mset [0..<length (points' ix)] \<and>
      branching_ok (branching' ix) tree \<and> points_ok (points' ix) tree)"
proof (induction js arbitrary: g roots)
  case Nil
  then show ?case by simp
next
  case (Cons j js)
  from Cons.prems(2) obtain tree indices g1 roots1 where
    t: "computeClustering fuel ix (Node None [] []) [0..<length (points' ix)] g = Inr (tree, indices, g1)"
    and r: "build_trees fuel ix js g1 = Inr (roots1, g')" and roots: "roots = tree # roots1"
    by (auto split: sum.splits)
  from computeClustering_props[OF Cons.prems(1) t] Cons.IH[OF Cons.prems(1) r] roots
  show ?case by (simp add: cluster_ok_def)
qed

lemma buildIndex_Inr:
  "buildIndex fuel ix = Inr ix' \<Longrightarrow>
   2 \<le> branching' ix \<and> 0 \<le> trees' ix \<and>
   (\<exists>roots g. build_trees fuel ix [0..<nat (trees' ix)] (random' ix) = Inr (roots, g) \<and>
      ix' = ix\<lparr>tree_roots' := roots, random' := g, size_at_build' := length (points' ix)\<rparr>)"
  by (auto simp: buildIndex_def split: if_splits sum.splits)

text \<open>
  Claim C2. When \<open>buildIndex\<close> returns, the forest has \<open>trees\<close> trees and in each of
  them the indices at the leaves are, as a multiset, exactly \<open>0, 1, ..., N - 1\<close>: each
  index once.
\<close>

theorem buildIndex_coverage:
  assumes "buildIndex fuel ix = Inr ix'"
  shows "length (tree_roots' ix') = nat (trees' ix) \<and>
         (\<forall>tree \<in> set (tree_roots' ix').
            mset (leaf_indices tree) = mset [0..<length (points' ix)])"
proof -
  from buildIndex_Inr[OF assms] obtain roots g where b: "2 \<le> branching' ix"
    and r: "build_trees fuel ix [0..<nat (trees' ix)] (random' ix) = Inr (roots, g)"
    and ix': "tree_roots' ix' = roots"
    by auto
  from b have "0 < branching' ix" by simp
  from build_trees_props[OF this r] ix' show ?thesis by simp
qed

lemma example_build_trees: "build_trees 5 example_dataset [0] () = Inr ([example_tree], ())"
  by code_simp

lemma buildIndex_example:
  "buildIndex 5 example_dataset =
     Inr (example_dataset\<lparr>tree_roots' := [example_tree], random' := (), size_at_build' := 5\<rparr>)"
  using example_build_trees
  by (simp add: buildIndex_def example_dataset_def example_index_def)

theorem buildIndex_coverage_witness:
  "buildIndex 5 example_dataset =
     Inr (example_dataset\<lparr>tree_roots' := [example_tree], random' := (), size_at_build' := 5\<rparr>) \<and>
   leaf_indices example_tree = [0, 2, 4, 3, 1] \<and>
   mset (leaf_indices example_tree) = mset [0..<length (points' example_dataset)]"
proof -
  have "leaf_indices example_tree = [0, 2, 4, 3, 1]"
    by (simp add: example_tree_def example_leaf_def)
  moreover have "mset (leaf_indices example_tree) = mset [0..<length (points' example_dataset)]"
    using buildIndex_coverage[OF buildIndex_example] by simp
  ultimately show ?thesis using buildIndex_example by blast
qed

lemma leaf_indices_sel:
  "leaf_indices nd = (if childs nd = [] then map index (points nd) else concat (map leaf_indices (childs nd)))"
  by (cases nd) simp

lemma branching_ok_sel:
  "branching_ok B nd \<longleftrightarrow>
     (childs nd = [] \<or> int (length (childs nd)) = B) \<and> (\<forall>c \<in> set (childs nd). branching_ok B c)"
  by (cases nd) simp

lemma points_ok_sel:
  "points_ok pts nd \<longleftrightarrow>
     (childs nd = [] \<longrightarrow> (\<forall>p \<in> set (points nd). index p < length pts \<and> point p = pts ! index p)) \<and>
     (\<forall>c \<in> set (childs nd). pivot c \<noteq> None \<and> points_ok pts c)"
  by (cases nd) simp

lemma mset_concat_update:
  "i < length cs \<Longrightarrow>
   mset (concat (map f (cs[i := c]))) + mset (f (cs ! i)) = mset (concat (map f cs)) + mset (f c)"
proof (induction cs arbitrary: i)
  case Nil
  then show ?case by simp
next
  case (Cons a cs)
  show ?case
  proof (cases i)
    case 0
    then show ?thesis by simp
  next
    case (Suc j)
    with Cons.prems have "j < length cs" by simp
    from Cons.IH[OF this] Suc show ?thesis by simp
  qed
qed

text \<open>What a returning call of \<open>addPointToTree\<close> did.\<close>

lemma addPointToTree_cases:
  fixes ix :: "('p, 'd::linorder, 'g) HierarchicalClusteringIndex"
  assumes "addPointToTree fuel ix nd idx g = Inr (nd', g')"
  shows "idx < length (points' ix) \<and>
    ((childs nd = [] \<and> \<not> (0 \<le> branching' ix \<and> branching' ix \<le> int (length (points nd)) + 1) \<and>
        nd' = Node (pivot nd) [] (points nd @ [PointInfo idx (points' ix ! idx)]) \<and> g' = g) \<or>
     (childs nd = [] \<and> 0 \<le> branching' ix \<and> branching' ix \<le> int (length (points nd)) + 1 \<and>
        (\<exists>indices. computeClustering fuel ix
                   (Node (pivot nd) [] (points nd @ [PointInfo idx (points' ix ! idx)]))
                   (map index (points nd) @ [idx]) g = Inr (nd', indices, g'))) \<or>
     (childs nd \<noteq> [] \<and> 0 \<le> branching' ix \<and> nat (branching' ix) \<le> length (childs nd) \<and>
        (\<exists>ds child. best_index ds (nat (branching' ix)) < length (childs nd) \<and>
           domain_distances (\<lambda>point center. distance' ix center point) (points' ix ! idx)
             (take (max 1 (nat (branching' ix))) (childs nd)) = Inr ds \<and>
           addPointToTree fuel ix (childs nd ! best_index ds (nat (branching' ix))) idx g = Inr (child, g') \<and>
           nd' = Node (pivot nd) ((childs nd)[best_index ds (nat (branching' ix)) := child]) (points nd))))"
proof -
  from assms have i: "idx < length (points' ix)"
    by (auto simp: addPointToTree.simps[of fuel ix nd idx g] split: if_splits)
  show ?thesis
  proof (cases "childs nd = []")
    case True
    with assms i show ?thesis
      by (auto simp: addPointToTree.simps[of fuel ix nd idx g] split: if_splits sum.splits)
  next
    case False
    with assms i have b: "0 \<le> branching' ix" "nat (branching' ix) \<le> length (childs nd)"
      by (auto simp: addPointToTree.simps[of fuel ix nd idx g] split: if_splits)
    have "best_index ds (nat (branching' ix)) < length (childs nd)" for ds :: "'d list"
      using best_index_less[of "nat (branching' ix)" ds] b False
      by (cases "nat (branching' ix) = 0") (auto simp: best_index_def)
    with assms i False b show ?thesis
      by (auto simp: addPointToTree.simps[of fuel ix nd idx g] split: if_splits sum.splits)
  qed
qed

lemma addPointToTree_props:
  fixes ix :: "('p, 'd::linorder, 'g) HierarchicalClusteringIndex"
  shows "0 < branching' ix \<Longrightarrow> addPointToTree fuel ix nd idx g = Inr (nd', g') \<Longrightarrow>
   mset (leaf_indices nd') = add_mset idx (mset (leaf_indices nd)) \<and> pivot nd' = pivot nd \<and>
   (branching_ok (branching' ix) nd \<longrightarrow> branching_ok (branching' ix) nd') \<and>
   (points_ok (points' ix) nd \<longrightarrow> points_ok (points' ix) nd')"
proof (induction fuel ix nd idx g arbitrary: nd' g' rule: addPointToTree.induct)
  case (1 fuel ix nd idx g)
  from addPointToTree_cases[OF "1.prems"(2)]
  consider (append) "idx < length (points' ix)" "childs nd = []"
      "nd' = Node (pivot nd) [] (points nd @ [PointInfo idx (points' ix ! idx)])"
    | (cluster) indices where "childs nd = []"
      "computeClustering fuel ix (Node (pivot nd) [] (points nd @ [PointInfo idx (points' ix ! idx)]))
         (map index (points nd) @ [idx]) g = Inr (nd', indices, g')"
    | (inner) ds :: "'d list" and child where "idx < length (points' ix)" "childs nd \<noteq> []"
      "\<not> (branching' ix < 0 \<or> length (childs nd) < nat (branching' ix))"
      "best_index ds (nat (branching' ix)) < length (childs nd)"
      "domain_distances (\<lambda>point center. distance' ix center point) (points' ix ! idx)
             (take (max 1 (nat (branching' ix))) (childs nd)) = Inr ds"
      "addPointToTree fuel ix (childs nd ! best_index ds (nat (branching' ix))) idx g = Inr (child, g')"
      "nd' = Node (pivot nd) ((childs nd)[best_index ds (nat (branching' ix)) := child]) (points nd)"
    by fastforce
  then show ?case
  proof cases
    case append
    then show ?thesis
      by (auto simp: leaf_indices_sel[of nd] points_ok_sel[of _ nd])
  next
    case cluster
    from computeClustering_props[OF "1.prems"(1) cluster(2)] cluster(1) show ?thesis
      by (auto simp: cluster_ok_def leaf_indices_sel[of nd])
  next
    case inner
    let ?b = "best_index ds (nat (branching' ix))"
    let ?c = "childs nd ! ?b"
    from inner(1) have i: "\<not> length (points' ix) \<le> idx" by simp
    from "1.IH"[OF i inner(2,3,5) "1.prems"(1) inner(6)]
    have ih: "mset (leaf_indices child) = add_mset idx (mset (leaf_indices ?c))"
      "pivot child = pivot ?c"
      "branching_ok (branching' ix) ?c \<longrightarrow> branching_ok (branching' ix) child"
      "points_ok (points' ix) ?c \<longrightarrow> points_ok (points' ix) child"
      by simp_all
    have cin: "?c \<in> set (childs nd)" using inner(4) by simp
    have upd: "set ((childs nd)[?b := child]) \<subseteq> insert child (set (childs nd))"
      by (rule set_update_subset_insert)
    have 1: "mset (leaf_indices nd') = add_mset idx (mset (leaf_indices nd))"
      using mset_concat_update[OF inner(4), of leaf_indices child] ih(1) inner(2,7)
      by (simp add: leaf_indices_sel[of nd])
    have 2: "branching_ok (branching' ix) nd'" if "branching_ok (branching' ix) nd"
      using that ih(3) cin upd inner(2,7)
      by (auto simp: branching_ok_sel[of _ nd])
    have 3: "points_ok (points' ix) nd'" if "points_ok (points' ix) nd"
      using that ih(2,4) cin upd inner(2,7)
      by (auto simp: points_ok_sel[of _ nd])
    from 1 2 3 inner(7) show ?thesis by simp
  qed
qed

lemma add_to_trees_props:
  fixes ix :: "('p, 'd::linorder, 'g) HierarchicalClusteringIndex"
  shows "0 < branching' ix \<Longrightarrow> distinct js \<Longrightarrow>
   add_to_trees fuel ix idx js roots g = Inr (roots', g') \<Longrightarrow>
   length roots' = length roots \<and> (\<forall>j \<in> set js. j < length roots) \<and>
   (\<forall>j < length roots.
      mset (leaf_indices (roots' ! j)) =
        (if j \<in> set js then add_mset idx (mset (leaf_indices (roots ! j)))
         else mset (leaf_indices (roots ! j))) \<and>
      (branching_ok (branching' ix) (roots ! j) \<longrightarrow> branching_ok (branching' ix) (roots' ! j)) \<and>
      (points_ok (points' ix) (roots ! j) \<longrightarrow> points_ok (points' ix) (roots' ! j)))"
proof (induction js arbitrary: roots g)
  case Nil
  then show ?case by simp
next
  case (Cons j js)
  from Cons.prems(3) obtain tree g1 where j: "j < length roots"
    and a: "addPointToTree fuel ix (roots ! j) idx g = Inr (tree, g1)"
    and r: "add_to_trees fuel ix idx js (roots[j := tree]) g1 = Inr (roots', g')"
    by (auto split: if_splits sum.splits)
  from Cons.prems(2) have d: "distinct js" "j \<notin> set js" by simp_all
  note p = addPointToTree_props[OF Cons.prems(1) a]
  from Cons.IH[OF Cons.prems(1) d(1) r]
  have ih: "length roots' = length roots" "\<forall>k \<in> set js. k < length roots"
    "\<forall>k < length roots.
      mset (leaf_indices (roots' ! k)) =
        (if k \<in> set js then add_mset idx (mset (leaf_indices (roots[j := tree] ! k)))
         else mset (leaf_indices (roots[j := tree] ! k))) \<and>
      (branching_ok (branching' ix) (roots[j := tree] ! k) \<longrightarrow> branching_ok (branching' ix) (roots' ! k)) \<and>
      (points_ok (points' ix) (roots[j := tree] ! k) \<longrightarrow> points_ok (points' ix) (roots' ! k))"
    by simp_all
  have "mset (leaf_indices (roots' ! k)) =
        (if k \<in> set (j # js) then add_mset idx (mset (leaf_indices (roots ! k)))
         else mset (leaf_indices (roots ! k))) \<and>
      (branching_ok (branching' ix) (roots ! k) \<longrightarrow> branching_ok (branching' ix) (roots' ! k)) \<and>
      (points_ok (points' ix) (roots ! k) \<longrightarrow> points_ok (points' ix) (roots' ! k))"
    if k: "k < length roots" for k
  proof (cases "k = j")
    case True
    with ih(3) k d(2) p show ?thesis by simp
  next
    case False
    with ih(3) k show ?thesis by simp
  qed
  with ih(1,2) j show ?case by simp
qed

lemma add_new_points_props:
  fixes ix :: "('p, 'd::linorder, 'g) HierarchicalClusteringIndex"
  shows "0 < branching' ix \<Longrightarrow>
   add_new_points fuel ix old_size js roots g = Inr (roots', g') \<Longrightarrow>
   length roots' = length roots \<and> (js \<noteq> [] \<longrightarrow> nat (trees' ix) \<le> length roots) \<and>
   (\<forall>j < length roots.
      mset (leaf_indices (roots' ! j)) =
        mset (leaf_indices (roots ! j)) +
        (if j < nat (trees' ix) then mset (map (\<lambda>i. old_size + i) js) else {#}) \<and>
      (branching_ok (branching' ix) (roots ! j) \<longrightarrow> branching_ok (branching' ix) (roots' ! j)) \<and>
      (points_ok (points' ix) (roots ! j) \<longrightarrow> points_ok (points' ix) (roots' ! j)))"
proof (induction js arbitrary: roots g)
  case Nil
  then show ?case by simp
next
  case (Cons i js)
  from Cons.prems(2) obtain roots1 g1 where
    a: "add_to_trees fuel ix (old_size + i) [0..<nat (trees' ix)] roots g = Inr (roots1, g1)"
    and r: "add_new_points fuel ix old_size js roots1 g1 = Inr (roots', g')"
    by (auto split: sum.splits)
  from add_to_trees_props[OF Cons.prems(1) _ a]
  have p: "length roots1 = length roots" "\<forall>j \<in> set [0..<nat (trees' ix)]. j < length roots"
    "\<forall>j < length roots.
      mset (leaf_indices (roots1 ! j)) =
        (if j \<in> set [0..<nat (trees' ix)] then add_mset (old_size + i) (mset (leaf_indices (roots ! j)))
         else mset (leaf_indices (roots ! j))) \<and>
      (branching_ok (branching' ix) (roots ! j) \<longrightarrow> branching_ok (branching' ix) (roots1 ! j)) \<and>
      (points_ok (points' ix) (roots ! j) \<longrightarrow> points_ok (points' ix) (roots1 ! j))"
    by simp_all
  from p(2) have t: "nat (trees' ix) \<le> length roots"
    by (cases "nat (trees' ix)") auto
  from Cons.IH[OF Cons.prems(1) r] p(1)
  have ih: "length roots' = length roots"
    "\<forall>j < length roots.
      mset (leaf_indices (roots' ! j)) =
        mset (leaf_indices (roots1 ! j)) +
        (if j < nat (trees' ix) then mset (map (\<lambda>i. old_size + i) js) else {#}) \<and>
      (branching_ok (branching' ix) (roots1 ! j) \<longrightarrow> branching_ok (branching' ix) (roots' ! j)) \<and>
      (points_ok (points' ix) (roots1 ! j) \<longrightarrow> points_ok (points' ix) (roots' ! j))"
    by simp_all
  have "mset (leaf_indices (roots' ! j)) =
        mset (leaf_indices (roots ! j)) +
        (if j < nat (trees' ix) then mset (map (\<lambda>i. old_size + i) (i # js)) else {#}) \<and>
      (branching_ok (branching' ix) (roots ! j) \<longrightarrow> branching_ok (branching' ix) (roots' ! j)) \<and>
      (points_ok (points' ix) (roots ! j) \<longrightarrow> points_ok (points' ix) (roots' ! j))"
    if j: "j < length roots" for j
    using ih(2) p(3) j by simp
  with ih(1) t show ?case by simp
qed

lemma addPoints_cases:
  fixes ix :: "('p, 'd::linorder, 'g) HierarchicalClusteringIndex"
  assumes "addPoints fuel ix new_points t = Inr ix'"
  shows "(rebuild_due (size_at_build' ix) t (length (points' ix) + length new_points) \<and>
          buildIndex fuel (extendDataset ix new_points) = Inr ix') \<or>
         (\<not> rebuild_due (size_at_build' ix) t (length (points' ix) + length new_points) \<and>
          (\<exists>roots g. add_new_points fuel (extendDataset ix new_points) (length (points' ix))
                [0..<length new_points] (tree_roots' ix) (random' ix) = Inr (roots, g) \<and>
             ix' = (extendDataset ix new_points)\<lparr>tree_roots' := roots, random' := g\<rparr>))"
  using assms by (auto simp: addPoints_def extendDataset_def split: if_splits sum.splits)

lemma buildIndex_props:
  fixes ix :: "('p, 'd::linorder, 'g) HierarchicalClusteringIndex"
  assumes "buildIndex fuel ix = Inr ix'"
  shows "size_at_build' ix' = length (points' ix) \<and> points' ix' = points' ix \<and>
         branching' ix' = branching' ix \<and> trees' ix' = trees' ix \<and>
         length (tree_roots' ix') = nat (trees' ix) \<and>
         (\<forall>tree \<in> set (tree_roots' ix').
            mset (leaf_indices tree) = mset [0..<length (points' ix)] \<and>
            branching_ok (branching' ix) tree \<and> points_ok (points' ix) tree)"
proof -
  from buildIndex_Inr[OF assms] obtain roots g where b: "2 \<le> branching' ix"
    and r: "build_trees fuel ix [0..<nat (trees' ix)] (random' ix) = Inr (roots, g)"
    and ix': "ix' = ix\<lparr>tree_roots' := roots, random' := g, size_at_build' := length (points' ix)\<rparr>"
    by auto
  from b have "0 < branching' ix" by simp
  from build_trees_props[OF this r] ix' show ?thesis by simp
qed

section \<open>The claims about adding points\<close>


text \<open>
  The example index as built (see \<open>buildIndex_example\<close>). Two points added with
  threshold 2.0 go into the tree (\<open>5 * 2 < 7\<close> fails); six points added make it rebuild
  (\<open>5 * 2 < 11\<close>).
\<close>

definition example_built :: "(int, int, unit) HierarchicalClusteringIndex" where
  "example_built = example_dataset\<lparr>tree_roots' := [example_tree], random' := (), size_at_build' := 5\<rparr>"

lemma example_built_fields:
  "size_at_build' example_built = 5" "length (points' example_built) = 5"
  "branching' example_built = 2" "tree_roots' example_built = [example_tree]"
  "trees' example_built = 1" "leaf_size' example_built = 3"
  by (simp_all add: example_built_def example_dataset_def example_index_def)

lemma example_add_two:
  "\<exists>ix'. addPoints 5 example_built [7, 8] 0x40000000 = Inr ix'"
proof -
  have "\<not> isl (add_new_points 5 (extendDataset example_built [7, 8]) (length (points' example_built))
          [0..<length [7, 8 :: int]] (tree_roots' (extendDataset example_built [7, 8]))
          (random' (extendDataset example_built [7, 8])))"
    by code_simp
  then obtain r where "add_new_points 5 (extendDataset example_built [7, 8]) (length (points' example_built))
          [0..<length [7, 8 :: int]] (tree_roots' (extendDataset example_built [7, 8]))
          (random' (extendDataset example_built [7, 8])) = Inr r"
    by (metis sum.collapse(2))
  moreover have "\<not> rebuild_due (size_at_build' (extendDataset example_built [7, 8])) 0x40000000
      (length (points' (extendDataset example_built [7, 8])))"
    by (simp add: extendDataset_def example_built_fields float_eval)
  ultimately show ?thesis
    by (simp only: addPoints_def if_False sum.case split: prod.split) blast
qed










text \<open>
  Claim C9. With a positive branching factor \<open>B\<close>: when \<open>computeClustering\<close> returns,
  every node with children in what it built has exactly \<open>B\<close> of them; if it split the
  node and \<open>0 < leaf_size\<close>, the child of a label that no index carries is a leaf with
  an empty points list (and the pivot of its center). So every inner node has exactly
  \<open>B\<close> children after \<open>buildIndex\<close>, and \<open>addPoints\<close> keeps it so.
\<close>

theorem inner_nodes_have_B_children:
  fixes ix :: "('p, 'd::linorder, 'g) HierarchicalClusteringIndex"
  assumes b: "0 < branching' ix"
  shows "(computeClustering fuel ix nd indices g = Inr (nd', indices', g') \<longrightarrow>
            branching_ok (branching' ix) nd' \<and>
            (childs nd' \<noteq> [] \<longrightarrow> int (length (childs nd')) = branching' ix) \<and>
            (childs nd' \<noteq> [] \<and> 0 < leaf_size' ix \<longrightarrow>
               (\<forall>k < length (childs nd').
                  (\<forall>x \<in> set indices.
                     label_of ix (fst (chooseCenters' ix (branching' ix) indices g)) x \<noteq> k) \<longrightarrow>
                  childs nd' ! k =
                    Node (Some (points' ix ! (fst (chooseCenters' ix (branching' ix) indices g) ! k))) [] []))) \<and>
         (buildIndex fuel ix = Inr ix1 \<longrightarrow>
            (\<forall>tree \<in> set (tree_roots' ix1). branching_ok (branching' ix) tree)) \<and>
         ((\<forall>tree \<in> set (tree_roots' ix). branching_ok (branching' ix) tree) \<and>
          addPoints fuel ix new_points t = Inr ix2 \<longrightarrow>
            (\<forall>tree \<in> set (tree_roots' ix2). branching_ok (branching' ix) tree))"
proof (intro conjI impI)
  assume run: "computeClustering fuel ix nd indices g = Inr (nd', indices', g')"
  from computeClustering_props[OF b run] show "branching_ok (branching' ix) nd'"
    by (simp add: cluster_ok_def)
  show "int (length (childs nd')) = branching' ix" if "childs nd' \<noteq> []"
    using computeClustering_split[OF run that] by simp
next
  assume "computeClustering fuel ix nd indices g = Inr (nd', indices', g')"
    and "childs nd' \<noteq> [] \<and> 0 < leaf_size' ix"
  then show "\<forall>k < length (childs nd').
     (\<forall>x \<in> set indices. label_of ix (fst (chooseCenters' ix (branching' ix) indices g)) x \<noteq> k) \<longrightarrow>
     childs nd' ! k =
       Node (Some (points' ix ! (fst (chooseCenters' ix (branching' ix) indices g) ! k))) [] []"
    using computeClustering_split[of fuel ix nd indices g nd' indices' g'] by simp
next
  assume "buildIndex fuel ix = Inr ix1"
  from buildIndex_props[OF this] show "\<forall>tree \<in> set (tree_roots' ix1). branching_ok (branching' ix) tree"
    by simp
next
  assume a: "(\<forall>tree \<in> set (tree_roots' ix). branching_ok (branching' ix) tree) \<and>
          addPoints fuel ix new_points t = Inr ix2"
  from addPoints_cases[of fuel ix new_points t ix2] a
  consider (rebuild) "buildIndex fuel (extendDataset ix new_points) = Inr ix2"
    | (insert) roots g where
        "add_new_points fuel (extendDataset ix new_points) (length (points' ix))
                [0..<length new_points] (tree_roots' ix) (random' ix) = Inr (roots, g)"
        "ix2 = (extendDataset ix new_points)\<lparr>tree_roots' := roots, random' := g\<rparr>"
    by blast
  then show "\<forall>tree \<in> set (tree_roots' ix2). branching_ok (branching' ix) tree"
  proof cases
    case rebuild
    from buildIndex_props[OF this] show ?thesis by (simp add: extendDataset_def)
  next
    case insert
    from b have "0 < branching' (extendDataset ix new_points)" by (simp add: extendDataset_def)
    from add_new_points_props[OF this insert(1)]
    have l: "length roots = length (tree_roots' ix)"
      and p: "\<forall>j < length (tree_roots' ix).
        branching_ok (branching' ix) (tree_roots' ix ! j) \<longrightarrow> branching_ok (branching' ix) (roots ! j)"
      by (simp_all add: extendDataset_def)
    show ?thesis
    proof
      fix tree assume "tree \<in> set (tree_roots' ix2)"
      with insert(2) obtain j where j: "j < length roots" "tree = roots ! j"
        by (auto simp: in_set_conv_nth)
      with l a have "branching_ok (branching' ix) (tree_roots' ix ! j)" by simp
      with p j l show "branching_ok (branching' ix) tree" by simp
    qed
  qed
qed

text \<open>
  Claim C10. A point appended to a leaf whose count thereby reaches \<open>B\<close> but stays
  below \<open>leaf_size\<close>: the call returns with whatever fuel, the node is still a leaf
  with the same pivot, its indices are the old ones followed by the new one, and when
  the old points were rows of the dataset the leaf is exactly the old leaf with the new
  point appended. Conversely a leaf that \<open>addPointToTree\<close> turns into a node with
  children held at least \<open>leaf_size\<close> (and \<open>B\<close>) points, the new one counted.
\<close>

theorem leaf_recluster_is_identity:
  fixes ix :: "('p, 'd::linorder, 'g) HierarchicalClusteringIndex"
  assumes leaf: "childs nd = []"
  shows "(idx < length (points' ix) \<and> (\<forall>p \<in> set (points nd). index p < length (points' ix)) \<and>
          branching' ix \<le> int (length (points nd)) + 1 \<and>
          int (length (points nd)) + 1 < leaf_size' ix \<longrightarrow>
            (\<exists>nd'. addPointToTree (Suc fuel) ix nd idx g = Inr (nd', g) \<and>
               childs nd' = [] \<and> pivot nd' = pivot nd \<and>
               map index (points nd') = map index (points nd) @ [idx] \<and>
               ((\<forall>p \<in> set (points nd). point p = points' ix ! index p) \<longrightarrow>
                  nd' = Node (pivot nd) [] (points nd @ [PointInfo idx (points' ix ! idx)])))) \<and>
         (addPointToTree fuel' ix nd idx g = Inr (nd'', g'') \<and> childs nd'' \<noteq> [] \<longrightarrow>
            leaf_size' ix \<le> int (length (points nd)) + 1 \<and>
            branching' ix \<le> int (length (points nd)) + 1)"
proof (intro conjI impI)
  assume a: "idx < length (points' ix) \<and> (\<forall>p \<in> set (points nd). index p < length (points' ix)) \<and>
          branching' ix \<le> int (length (points nd)) + 1 \<and>
          int (length (points nd)) + 1 < leaf_size' ix"
  let ?new = "PointInfo idx (points' ix ! idx)"
  let ?nd' = "Node (pivot nd) [] (map (\<lambda>i. PointInfo i (points' ix ! i)) (map index (points nd) @ [idx]))"
  have ml: "make_leaf ix n (map index (points nd) @ [idx]) =
      Inr (Node (pivot n) [] (map (\<lambda>i. PointInfo i (points' ix ! i)) (map index (points nd) @ [idx])))" for n
    using a by (auto simp: make_leaf_def not_le[symmetric])
  have same: "?nd' = Node (pivot nd) [] (points nd @ [?new])"
    if "\<forall>p \<in> set (points nd). point p = points' ix ! index p"
  proof -
    have "map (\<lambda>p. PointInfo (index p) (points' ix ! index p)) (points nd) = points nd"
      by (rule map_idI) (use that in \<open>auto intro: PointInfo.expand\<close>)
    then have "map (\<lambda>i. PointInfo i (points' ix ! i)) (map index (points nd)) = points nd"
      by (simp add: o_def)
    then show ?thesis by simp
  qed
  have "addPointToTree (Suc fuel) ix nd idx g = Inr (?nd', g) \<or>
        addPointToTree (Suc fuel) ix nd idx g = Inr (Node (pivot nd) [] (points nd @ [?new]), g)"
  proof (cases "0 \<le> branching' ix")
    case True
    with a leaf ml show ?thesis
      by (simp add: addPointToTree.simps[of "Suc fuel" ix nd idx g])
  next
    case False
    with a leaf show ?thesis
      by (simp add: addPointToTree.simps[of "Suc fuel" ix nd idx g])
  qed
  moreover have "childs ?nd' = [] \<and> pivot ?nd' = pivot nd \<and>
        map index (points ?nd') = map index (points nd) @ [idx]"
    by (simp add: o_def)
  ultimately
  show "\<exists>nd'. addPointToTree (Suc fuel) ix nd idx g = Inr (nd', g) \<and>
               childs nd' = [] \<and> pivot nd' = pivot nd \<and>
               map index (points nd') = map index (points nd) @ [idx] \<and>
               ((\<forall>p \<in> set (points nd). point p = points' ix ! index p) \<longrightarrow>
                  nd' = Node (pivot nd) [] (points nd @ [PointInfo idx (points' ix ! idx)]))"
    using same by auto
next
  assume a: "addPointToTree fuel' ix nd idx g = Inr (nd'', g'') \<and> childs nd'' \<noteq> []"
  from addPointToTree_cases[of fuel' ix nd idx g nd'' g''] a leaf
  obtain indices where b: "branching' ix \<le> int (length (points nd)) + 1"
    and c: "computeClustering fuel' ix (Node (pivot nd) [] (points nd @ [PointInfo idx (points' ix ! idx)]))
                   (map index (points nd) @ [idx]) g = Inr (nd'', indices, g'')"
    by auto
  from c obtain f where f: "fuel' = Suc f" by (cases fuel') auto
  from computeClustering_cases[OF c[unfolded f]] a
  have "\<not> int (length (map index (points nd) @ [idx])) < leaf_size' ix"
    by (auto simp: make_leaf_Inr)
  then show "leaf_size' ix \<le> int (length (points nd)) + 1" by simp
  from b show "branching' ix \<le> int (length (points nd)) + 1" .
qed

text \<open>
  Three equal points, with a chooser that gives two centers at its first call and none
  afterwards: every point gets the label 0, the child of the label 1 is made from an
  empty slice, and the child of the label 0 stays a leaf.
\<close>

definition degenerate_index :: "(int, int, nat) HierarchicalClusteringIndex" where
  "degenerate_index =
     \<lparr>points' = [5, 5, 5],
      removed_points' = (\<lambda>i. False),
      distance' = (\<lambda>a b. \<bar>a - b\<bar>),
      chooseCenters' = (\<lambda>k indices g. (if g = 0 then take (nat k) indices else [], Suc g)),
      random' = 0,
      branching' = 2,
      trees' = 1,
      centers_init' = 0,
      leaf_size' = 1,
      memoryCounter' = 0,
      tree_roots' = [],
      size_at_build' = 0\<rparr>"

text \<open>The example dataset with leaf size 5, and a leaf of two points.\<close>

definition example_wide :: "(int, int, unit) HierarchicalClusteringIndex" where
  "example_wide = example_dataset\<lparr>leaf_size' := 5\<rparr>"


definition degenerate_tree :: "int Node" where
  "degenerate_tree =
     Node None
       [Node (Some 5) [] [PointInfo 0 5, PointInfo 1 5, PointInfo 2 5],
        Node (Some 5) [] []] []"

lemma degenerate_clustering:
  "computeClustering 3 degenerate_index (Node None [] []) [0, 1, 2] 0 =
     Inr (degenerate_tree, [0, 1, 2], 2)"
  by code_simp

lemma degenerate_labels:
  "fst (chooseCenters' degenerate_index (branching' degenerate_index) [0, 1, 2] 0) = [0, 1]"
  "map (label_of degenerate_index [0, 1]) [0, 1, 2] = [0, 0, 0]"
  by code_simp+

theorem inner_nodes_have_B_children_witness:
  "(computeClustering 3 degenerate_index (Node None [] []) [0, 1, 2] 0 =
      Inr (degenerate_tree, [0, 1, 2], 2) \<and>
    map (label_of degenerate_index [0, 1]) [0, 1, 2] = [0, 0, 0] \<and>
    branching_ok 2 degenerate_tree \<and> length (childs degenerate_tree) = 2 \<and>
    childs degenerate_tree ! 1 = Node (Some 5) [] []) \<and>
   (buildIndex 5 example_dataset = Inr example_built \<and> branching_ok 2 example_tree) \<and>
   (\<exists>ix2. addPoints 5 example_built [7, 8] 0x40000000 = Inr ix2 \<and>
      list_all (branching_ok 2) (tree_roots' ix2))"
proof -
  have b: "0 < branching' degenerate_index" "branching' degenerate_index = 2"
    "0 < leaf_size' degenerate_index" "points' degenerate_index = [5, 5, 5]"
    by (simp_all add: degenerate_index_def)
  have none: "\<forall>x \<in> set [0, 1, 2].
      label_of degenerate_index (fst (chooseCenters' degenerate_index (branching' degenerate_index) [0, 1, 2] 0)) x \<noteq> 1"
    using degenerate_labels by simp
  have c: "childs degenerate_tree \<noteq> []" "1 < length (childs degenerate_tree)"
    by (simp_all add: degenerate_tree_def)
  from inner_nodes_have_B_children[OF b(1), of 3 "Node None [] []" "[0, 1, 2]" 0
      degenerate_tree "[0, 1, 2]" 2] degenerate_clustering
  have 1: "branching_ok 2 degenerate_tree" "length (childs degenerate_tree) = 2"
    and e: "\<forall>k < length (childs degenerate_tree).
      (\<forall>x \<in> set [0, 1, 2].
         label_of degenerate_index (fst (chooseCenters' degenerate_index (branching' degenerate_index) [0, 1, 2] 0)) x \<noteq> k) \<longrightarrow>
      childs degenerate_tree ! k =
        Node (Some (points' degenerate_index !
          (fst (chooseCenters' degenerate_index (branching' degenerate_index) [0, 1, 2] 0) ! k))) [] []"
    using b c by simp_all
  from e c(2) none have 2: "childs degenerate_tree ! 1 = Node (Some 5) [] []"
    using degenerate_labels(1) b(4) by simp
  have bi: "buildIndex 5 example_dataset = Inr example_built"
    using buildIndex_example by (simp add: example_built_def)
  have eb: "0 < branching' example_dataset" "branching' example_dataset = 2"
    by (simp_all add: example_dataset_def example_index_def)
  from inner_nodes_have_B_children[OF eb(1), of 5 _ _ _ _ _ _ example_built] bi
  have 3: "branching_ok 2 example_tree"
    by (simp add: example_built_fields eb)
  from example_add_two obtain ix2 where a: "addPoints 5 example_built [7, 8] 0x40000000 = Inr ix2" by blast
  have eb': "0 < branching' example_built" by (simp add: example_built_fields)
  from inner_nodes_have_B_children[OF eb', of 5 _ _ _ _ _ _ _ "[7, 8]" "0x40000000" ix2] a 3
  have 4: "list_all (branching_ok 2) (tree_roots' ix2)"
    by (simp add: example_built_fields list_all_iff)
  from degenerate_clustering degenerate_labels(2) 1 2 bi 3 a 4 show ?thesis by blast
qed

definition example_small_leaf :: "int Node" where
  "example_small_leaf = Node (Some 0) [] [PointInfo 3 1, PointInfo 1 0]"

lemma example_split_leaf:
  "addPointToTree 5 example_dataset example_small_leaf 4 () =
     Inr (Node (Some 0)
            [Node (Some 1) [] [PointInfo 3 1, PointInfo 4 20], Node (Some 0) [] [PointInfo 1 0]]
            [PointInfo 3 1, PointInfo 1 0, PointInfo 4 20], ())"
  by code_simp

theorem leaf_recluster_is_identity_witness:
  "childs example_small_leaf = [] \<and>
   branching' example_wide = 2 \<and> leaf_size' example_wide = 5 \<and>
   addPointToTree 1 example_wide example_small_leaf 4 () =
     Inr (Node (Some 0) [] [PointInfo 3 1, PointInfo 1 0, PointInfo 4 20], ()) \<and>
   addPointToTree 5 example_dataset example_small_leaf 4 () =
     Inr (Node (Some 0)
            [Node (Some 1) [] [PointInfo 3 1, PointInfo 4 20], Node (Some 0) [] [PointInfo 1 0]]
            [PointInfo 3 1, PointInfo 1 0, PointInfo 4 20], ()) \<and>
   leaf_size' example_dataset \<le> 3"
proof -
  have leaf: "childs example_small_leaf = []" by (simp add: example_small_leaf_def)
  have f: "branching' example_wide = 2" "leaf_size' example_wide = 5"
    "points' example_wide = [5, 0, 6, 1, 20]" "points example_small_leaf = [PointInfo 3 1, PointInfo 1 0]"
    "pivot example_small_leaf = Some 0"
    by (simp_all add: example_wide_def example_dataset_def example_index_def example_small_leaf_def)
  from leaf_recluster_is_identity[OF leaf, where ix = example_wide and idx = 4 and g = "()" and fuel = 0]
  have 1: "addPointToTree 1 example_wide example_small_leaf 4 () =
     Inr (Node (Some 0) [] [PointInfo 3 1, PointInfo 1 0, PointInfo 4 20], ())"
    by (auto simp: f)
  from leaf_recluster_is_identity[OF leaf, where ix = example_dataset and idx = 4 and g = "()" and fuel' = 5
      and fuel = 0 and g'' = "()"
      and nd'' = "Node (Some 0)
            [Node (Some 1) [] [PointInfo 3 1, PointInfo 4 20], Node (Some 0) [] [PointInfo 1 0]]
            [PointInfo 3 1, PointInfo 1 0, PointInfo 4 20]"] example_split_leaf
  have 2: "leaf_size' example_dataset \<le> 3"
    by (simp add: f)
  from leaf f(1,2) 1 example_split_leaf 2 show ?thesis by blast
qed

section \<open>Exhaustive search\<close>

text \<open>
  Modelled from the spec: the brute-force computation that the spec compares a query with
  is not part of the sources. It scores every index that is not removed, applying the
  distance as \<open>findNN\<close> does (to the point, then the query), and keeps the top \<open>k\<close>
  pairs in the order of the accumulator.
\<close>

definition candidate :: "('p, 'd, 'g) HierarchicalClusteringIndex \<Rightarrow> 'p \<Rightarrow> nat \<Rightarrow> 'd \<times> nat" where
  "candidate ix vec i = (distance' ix (points' ix ! i) vec, i)"





lemma candidate_inj: "inj (candidate ix vec)"
  by (auto simp: inj_def candidate_def)



text \<open>The shape that \<open>buildIndex\<close> and \<open>addPoints\<close> give to every tree.\<close>

definition node_ok :: "('p, 'd, 'g) HierarchicalClusteringIndex \<Rightarrow> 'p Node \<Rightarrow> bool" where
  "node_ok ix nd \<longleftrightarrow> branching_ok (branching' ix) nd \<and> points_ok (points' ix) nd"

lemma node_ok_childs: "node_ok ix nd \<Longrightarrow> c \<in> set (childs nd) \<Longrightarrow> node_ok ix c \<and> pivot c \<noteq> None"
  by (auto simp: node_ok_def branching_ok_sel[of _ nd] points_ok_sel[of _ nd])

lemma domain_distances_total:
  "\<forall>c \<in> set cs. pivot c \<noteq> None \<Longrightarrow> \<exists>ds. domain_distances f v cs = Inr ds"
  by (induction cs) auto

































subsection \<open>Queries return\<close>

lemma findNN_total:
  fixes ix :: "('p, 'd::linorder, 'g) HierarchicalClusteringIndex"
  shows "node_ok ix nd \<Longrightarrow> 0 < branching' ix \<Longrightarrow> \<forall>b \<in> set (heap' (heap st)). node_ok ix (node b) \<Longrightarrow>
   \<exists>st'. findNN ix rs vec maxChecks nd st = Inr st' \<and> (\<forall>b \<in> set (heap' (heap st')). node_ok ix (node b))"
proof (induction ix rs vec maxChecks nd st rule: findNN.induct)
  case (1 ix rs vec maxChecks nd st)
  note ok = "1.prems"(1) and b = "1.prems"(2) and hok = "1.prems"(3)
  show ?case
  proof (cases "childs nd = []")
    case True
    with hok show ?thesis
      by (auto simp: findNN.simps[of ix rs vec maxChecks nd st] score_points_heap)
  next
    case False
    let ?B = "nat (branching' ix)"
    from ok False have len: "length (childs nd) = ?B"
      by (auto simp: node_ok_def branching_ok_sel[of _ nd])
    with b have nub: "\<not> (branching' ix < 1 \<or> length (childs nd) < ?B)" by simp
    from len have tk: "take ?B (childs nd) = childs nd" by simp
    from node_ok_childs[OF ok] have "\<forall>c \<in> set (childs nd). pivot c \<noteq> None" by blast
    from domain_distances_total[OF this, of "distance' ix" vec] tk obtain ds where
      ds: "domain_distances (distance' ix) vec (take ?B (childs nd)) = Inr ds" by auto
    let ?best = "best_index ds ?B"
    let ?st1 = "st\<lparr>heap := insert_others (childs nd) ds ?B ?best (heap st)\<rparr>"
    from b have bl: "?best < ?B" by (intro best_index_less) simp
    have r: "findNN ix rs vec maxChecks nd st = findNN ix rs vec maxChecks (childs nd ! ?best) ?st1"
      using False nub ds by (simp add: findNN.simps[of ix rs vec maxChecks nd st])
    have cok: "node_ok ix (childs nd ! i)" if "i < ?B" for i
      using node_ok_childs[OF ok, of "childs nd ! i"] that len by simp
    have hok1: "\<forall>b \<in> set (heap' (heap ?st1)). node_ok ix (node b)"
      using hok cok by (auto simp: insert_others_eq others_def dest!: in_set_takeD)
    from "1.IH"[OF False nub ds cok[OF bl] b hok1] r show ?thesis by simp
  qed
qed

lemma descend_roots_total:
  fixes ix :: "('p, 'd::linorder, 'g) HierarchicalClusteringIndex"
  assumes b: "0 < branching' ix"
  shows "\<forall>j \<in> set js. j < length (tree_roots' ix) \<and> node_ok ix (tree_roots' ix ! j) \<Longrightarrow>
   \<forall>b \<in> set (heap' (heap st)). node_ok ix (node b) \<Longrightarrow>
   \<exists>st'. descend_roots ix rs vec maxChecks js st = Inr st' \<and> (\<forall>b \<in> set (heap' (heap st')). node_ok ix (node b))"
proof (induction js arbitrary: st)
  case Nil
  then show ?case by simp
next
  case (Cons j js)
  from Cons.prems(1) have j: "j < length (tree_roots' ix)" "node_ok ix (tree_roots' ix ! j)" by simp_all
  from findNN_total[OF j(2) b Cons.prems(2)] obtain st1 where
    st1: "findNN ix rs vec maxChecks (tree_roots' ix ! j) st = Inr st1"
    "\<forall>b \<in> set (heap' (heap st1)). node_ok ix (node b)" by blast
  from Cons.IH[OF _ st1(2)] Cons.prems(1) st1(1) j(1) show ?case by simp
qed

lemma search_loop_total:
  fixes ix :: "('p, 'd::linorder, 'g) HierarchicalClusteringIndex"
  shows "0 < branching' ix \<Longrightarrow> \<forall>b \<in> set (heap' (heap st)). node_ok ix (node b) \<Longrightarrow>
   \<exists>st'. search_loop ix rs vec maxChecks st = Inr st'"
proof (induction ix rs vec maxChecks st rule: search_loop.induct)
  case (1 ix rs vec maxChecks st)
  show ?case
  proof (cases "popMin (heap st)")
    case None
    then show ?thesis by (simp add: search_loop.simps[of ix rs vec maxChecks st])
  next
    case (Some a)
    then obtain branch h where bh: "popMin (heap st) = Some (branch, h)" by (cases a) auto
    from popMin_mset[OF bh] have sh: "set (heap' (heap st)) = insert branch (set (heap' h))"
      by (metis set_mset_add_mset_insert set_mset_mset)
    show ?thesis
    proof (cases "checks st < maxChecks \<or> \<not> full rs (result st)")
      case True
      from "1.prems"(2) sh have ok0: "node_ok ix (node branch)"
        "\<forall>b \<in> set (heap' (heap (st\<lparr>heap := h\<rparr>))). node_ok ix (node b)"
        by simp_all
      from findNN_total[OF ok0(1) "1.prems"(1) ok0(2)] obtain st1 where
        st1: "findNN ix rs vec maxChecks (node branch) (st\<lparr>heap := h\<rparr>) = Inr st1"
        "\<forall>b \<in> set (heap' (heap st1)). node_ok ix (node b)" by blast
      from "1.IH"[OF bh refl True st1(1) "1.prems"(1) st1(2)] bh True st1(1) show ?thesis
        by (simp add: search_loop.simps[of ix rs vec maxChecks st])
    next
      case False
      with bh show ?thesis by (simp add: search_loop.simps[of ix rs vec maxChecks st])
    qed
  qed
qed

text \<open>
  On a forest of the shape that building gives, a query returns: no child is missing
  and no pivot is null, whatever the accumulator.
\<close>

lemma findNeighbors_total:
  fixes ix :: "('p, 'd::linorder, 'g) HierarchicalClusteringIndex"
  assumes "0 < branching' ix" "nat (trees' ix) \<le> length (tree_roots' ix)"
    "\<forall>tree \<in> set (tree_roots' ix). node_ok ix tree"
  shows "\<exists>res'. findNeighbors ix rs res vec maxChecks = Inr res'"
proof -
  have "\<forall>j \<in> set [0..<nat (trees' ix)]. j < length (tree_roots' ix) \<and> node_ok ix (tree_roots' ix ! j)"
    using assms(2,3) by auto
  from descend_roots_total[OF assms(1) this, of "\<lparr>result = res, checks = 0, heap = new_Heap (int (length (points' ix))), checked = {}\<rparr>" rs vec maxChecks]
  obtain st1 where st1: "descend_roots ix rs vec maxChecks [0..<nat (trees' ix)]
      \<lparr>result = res, checks = 0, heap = new_Heap (int (length (points' ix))), checked = {}\<rparr> = Inr st1"
    "\<forall>b \<in> set (heap' (heap st1)). node_ok ix (node b)" by auto
  from search_loop_total[OF assms(1) st1(2), of rs vec maxChecks] st1(1) show ?thesis
    by (auto simp: findNeighbors_def findNeighbors_state_def)
qed

end
